theory Spec2Isabelle
  imports Complex_Main "HOL-Library.Multiset" "HOL-Library.Log_Nat"
begin

section \<open>Runtime errors\<close>

text \<open>
  The exceptions the modelled Python code can raise. A function that can raise returns
  \<open>py_error + 'a\<close>, with \<open>Inl\<close> for the exception.
\<close>

datatype py_error = IndexError | ZeroDivisionError

section \<open>Quote (generate.py, class Quote)\<close>

text \<open>
  Python strings are modelled as \<open>string\<close>, one \<open>char\<close> per character of the quote
  text (the quote library is plain Latin text).
\<close>

record quote =
  qid :: int
  qtext :: string
  author :: string
  source :: "string option"

definition PUNCTUATION_MARKS :: "char set" where
  "PUNCTUATION_MARKS =
     {CHR ''.'', CHR '','', CHR ''!'', CHR ''?'', CHR '';'', CHR '':'', CHR 0x22, CHR 0x27}"

definition py_isspace :: "char \<Rightarrow> bool" where
  \<comment> \<open>the characters below 256 that \<open>str.strip()\<close> removes\<close>
  "py_isspace c = ((of_char c :: nat) \<in> {9, 10, 11, 12, 13, 28, 29, 30, 31, 32, 133, 160})"

definition py_strip :: "string \<Rightarrow> string" where
  "py_strip s = rev (dropWhile py_isspace (rev (dropWhile py_isspace s)))"

definition answer :: "quote \<Rightarrow> string" where
  "answer q =
     (let t = py_strip (qtext q)
      in if t \<noteq> [] \<and> last t \<in> {CHR ''.'', CHR ''!'', CHR ''?''}
         then py_strip (butlast t) else t)"

section \<open>Layout (GameState._build_grid)\<close>

definition GRID_COLS :: nat where
  "GRID_COLS = 12"

fun split_on_space :: "string \<Rightarrow> string list" where
  \<comment> \<open>\<open>str.split(' ')\<close>: every single space separates, empty pieces are kept\<close>
  "split_on_space [] = [[]]"
| "split_on_space (c # cs) =
     (if c = CHR '' '' then [] # split_on_space cs
      else (case split_on_space cs of
              [] \<Rightarrow> [[c]]
            | w # ws \<Rightarrow> (c # w) # ws))"

text \<open>
  The state of the word-wrapping loop: the closed lines, the current line and
  \<open>current_length\<close>.
\<close>

type_synonym wrap_state = "string list \<times> string \<times> nat"

definition wrap_word :: "wrap_state \<Rightarrow> string \<Rightarrow> wrap_state" where
  "wrap_word st word =
     (case st of (lines, current_line, current_length) \<Rightarrow>
        if word = [] then st
        else
          let space_cost = (if current_line \<noteq> [] then 1 else 0 :: nat);
              word_cost = length word
          in if current_length + space_cost + word_cost \<le> GRID_COLS
             then (if current_line \<noteq> []
                   then (lines, (current_line @ ''#'') @ word, (current_length + 1) + word_cost)
                   else (lines, current_line @ word, current_length + word_cost))
             else (lines @ [current_line], word, word_cost))"

definition build_lines :: "string \<Rightarrow> string list" where
  "build_lines puzzle_text =
     (case foldl wrap_word ([], [], 0) (split_on_space puzzle_text) of
        (lines, current_line, current_length) \<Rightarrow>
          if current_line \<noteq> [] then lines @ [current_line] else lines)"

definition py_setitem :: "'a list \<Rightarrow> int \<Rightarrow> 'a \<Rightarrow> py_error + 'a list" where
  \<comment> \<open>\<open>xs[i] = v\<close>: a negative index counts from the end, out of range raises\<close>
  "py_setitem xs i v =
     (let n = int (length xs); j = (if i < 0 then n + i else i)
      in if 0 \<le> j \<and> j < n then Inr (xs[nat j := v]) else Inl IndexError)"

fun place_chars :: "string \<Rightarrow> int \<Rightarrow> string \<Rightarrow> py_error + string" where
  \<comment> \<open>\<open>for i, char in enumerate(line_chars): row[left_pad + i] = char\<close>, from index \<open>k\<close>\<close>
  "place_chars row k [] = Inr row"
| "place_chars row k (c # cs) =
     (case py_setitem row k c of
        Inl e \<Rightarrow> Inl e
      | Inr row' \<Rightarrow> place_chars row' (k + 1) cs)"

definition center_row :: "string \<Rightarrow> py_error + string" where
  "center_row line_chars =
     (let empty_spots = int GRID_COLS - int (length line_chars);
          left_pad = empty_spots div 2
      in place_chars (replicate GRID_COLS CHR ''#'') left_pad line_chars)"

fun center_rows :: "string list \<Rightarrow> py_error + string list" where
  "center_rows [] = Inr []"
| "center_rows (l # ls) =
     (case center_row l of
        Inl e \<Rightarrow> Inl e
      | Inr r \<Rightarrow> (case center_rows ls of Inl e \<Rightarrow> Inl e | Inr rs \<Rightarrow> Inr (r # rs)))"

definition build_grid :: "string \<Rightarrow> py_error + string list" where
  "build_grid puzzle_text = center_rows (build_lines puzzle_text)"

section \<open>Cells\<close>

definition is_supply_letter :: "char \<Rightarrow> bool" where
  \<comment> \<open>\<open>char != '#' and char not in PUNCTUATION_MARKS\<close>: a Letter cell\<close>
  "is_supply_letter ch = (ch \<noteq> CHR ''#'' \<and> ch \<notin> PUNCTUATION_MARKS)"

definition scan_cells :: "string list \<Rightarrow> (nat \<times> nat \<times> char) list" where
  \<comment> \<open>\<open>for r, row in enumerate(rows): for c, char in enumerate(row)\<close>, in visiting order\<close>
  "scan_cells rws =
     concat (map (\<lambda>(r, row). map (\<lambda>(c, ch). (r, c, ch)) (enumerate 0 row)) (enumerate 0 rws))"

fun fold_err :: "('s \<Rightarrow> 'a \<Rightarrow> py_error + 's) \<Rightarrow> 's \<Rightarrow> 'a list \<Rightarrow> py_error + 's" where
  \<comment> \<open>a \<open>for\<close> loop over a list whose body may raise\<close>
  "fold_err f s [] = Inr s"
| "fold_err f s (x # xs) = (case f s x of Inl e \<Rightarrow> Inl e | Inr s' \<Rightarrow> fold_err f s' xs)"

section \<open>Supply (GameState._build_supply)\<close>

text \<open>
  The pseudo-random generator of Python's \<open>random\<close> module is not part of the program.
  It is a parameter: a type \<open>'g\<close> of generator states, \<open>sd\<close> giving the state that
  \<open>random.seed(n)\<close> installs, and \<open>rb g n\<close> giving the draw of \<open>_randbelow(n)\<close> in state
  \<open>g\<close> together with the next state. \<open>random.shuffle\<close> is the library's loop
  \<open>for i in reversed(range(1, len(x))): j = randbelow(i + 1); x[i], x[j] = x[j], x[i]\<close>.
\<close>

definition supply_add :: "string list \<Rightarrow> nat \<times> nat \<times> char \<Rightarrow> py_error + string list" where
  \<comment> \<open>\<open>if char != '#' and char not in PUNCTUATION_MARKS: self.supply[c].append(char)\<close>\<close>
  "supply_add spl cell =
     (case cell of (r, c, ch) \<Rightarrow>
        if is_supply_letter ch
        then (if c < length spl then Inr (spl[c := spl ! c @ [ch]]) else Inl IndexError)
        else Inr spl)"

definition bucket_supply :: "string list \<Rightarrow> py_error + string list" where
  "bucket_supply rws = fold_err supply_add (replicate GRID_COLS []) (scan_cells rws)"

fun shuffle_from :: "('g \<Rightarrow> nat \<Rightarrow> nat \<times> 'g) \<Rightarrow> nat \<Rightarrow> 'a list \<Rightarrow> 'g \<Rightarrow> py_error + ('a list \<times> 'g)" where
  \<comment> \<open>the iterations \<open>i = k, k - 1, ..., 1\<close> of the shuffle loop\<close>
  "shuffle_from rb 0 xs g = Inr (xs, g)"
| "shuffle_from rb (Suc i) xs g =
     (case rb g (Suc i + 1) of (j, g') \<Rightarrow>
        if j < length xs \<and> Suc i < length xs
        then shuffle_from rb i (xs[Suc i := xs ! j, j := xs ! Suc i]) g'
        else Inl IndexError)"

definition shuffle :: "('g \<Rightarrow> nat \<Rightarrow> nat \<times> 'g) \<Rightarrow> 'a list \<Rightarrow> 'g \<Rightarrow> py_error + ('a list \<times> 'g)" where
  "shuffle rb xs g = shuffle_from rb (length xs - 1) xs g"

fun shuffle_columns :: "('g \<Rightarrow> nat \<Rightarrow> nat \<times> 'g) \<Rightarrow> 'a list list \<Rightarrow> 'g \<Rightarrow> py_error + ('a list list \<times> 'g)" where
  \<comment> \<open>\<open>for col in self.supply: random.shuffle(col)\<close>, the generator state passed along\<close>
  "shuffle_columns rb [] g = Inr ([], g)"
| "shuffle_columns rb (col # cols) g =
     (case shuffle rb col g of
        Inl e \<Rightarrow> Inl e
      | Inr (col', g') \<Rightarrow>
          (case shuffle_columns rb cols g' of
             Inl e \<Rightarrow> Inl e
           | Inr (cols', g'') \<Rightarrow> Inr (col' # cols', g'')))"

definition build_supply ::
  "(int \<Rightarrow> 'g) \<Rightarrow> ('g \<Rightarrow> nat \<Rightarrow> nat \<times> 'g) \<Rightarrow> 'g \<Rightarrow> int \<Rightarrow> string list \<Rightarrow> py_error + (string list \<times> 'g)" where
  \<comment> \<open>\<open>g\<close> is the state of the module-wide generator when the method is entered;
      \<open>random.seed(self.quote.id)\<close> replaces it\<close>
  "build_supply sd rb g seed rws =
     (case bucket_supply rws of
        Inl e \<Rightarrow> Inl e
      | Inr cols \<Rightarrow> shuffle_columns rb cols (sd seed))"

fun stream_state :: "('g \<Rightarrow> nat \<Rightarrow> nat \<times> 'g) \<Rightarrow> 'a list list \<Rightarrow> 'g \<Rightarrow> nat \<Rightarrow> 'g" where
  \<comment> \<open>the state of the generator once the first \<open>c\<close> columns have been shuffled\<close>
  "stream_state rb cols g 0 = g"
| "stream_state rb cols g (Suc c) =
     (case shuffle rb (cols ! c) (stream_state rb cols g c) of
        Inl e \<Rightarrow> stream_state rb cols g c
      | Inr (col', g') \<Rightarrow> g')"

section \<open>Letter positions (GameState._build_letter_positions)\<close>

definition remove_spaces :: "string \<Rightarrow> string" where
  \<comment> \<open>\<open>answer.replace(' ', '')\<close>\<close>
  "remove_spaces s = filter (\<lambda>ch. ch \<noteq> CHR '' '') s"

definition position_step :: "nat \<Rightarrow> (nat \<times> nat) list \<times> nat \<Rightarrow> nat \<times> nat \<times> char \<Rightarrow> (nat \<times> nat) list \<times> nat" where
  \<comment> \<open>the loop body; the accumulator is \<open>(letter_positions, letter_idx)\<close>\<close>
  "position_step limit acc cell =
     (case acc of (positions, letter_idx) \<Rightarrow>
        (case cell of (r, c, ch) \<Rightarrow>
           if is_supply_letter ch
           then (if letter_idx < limit then (positions @ [(r, c)], letter_idx + 1) else acc)
           else acc))"

definition build_letter_positions :: "string \<Rightarrow> string list \<Rightarrow> (nat \<times> nat) list" where
  "build_letter_positions ans rws =
     fst (foldl (position_step (length (remove_spaces ans))) ([], 0) (scan_cells rws))"

section \<open>Game state and placement (GameState.__init__, place_next_letter)\<close>

record game_state =
  gs_quote :: quote
  rows :: "string list"
  supply_cols :: "string list"
  letter_positions :: "(nat \<times> nat) list"
  placed_supply_letters :: string
  placed_count :: nat
  used_supply_indices :: "(nat \<times> nat) list"

definition GameState_init ::
  "(int \<Rightarrow> 'g) \<Rightarrow> ('g \<Rightarrow> nat \<Rightarrow> nat \<times> 'g) \<Rightarrow> 'g \<Rightarrow> quote \<Rightarrow> py_error + (game_state \<times> 'g)" where
  "GameState_init sd rb g q =
     (case build_grid (answer q) of
        Inl e \<Rightarrow> Inl e
      | Inr rws \<Rightarrow>
          (case build_supply sd rb g (qid q) rws of
             Inl e \<Rightarrow> Inl e
           | Inr (spl, g') \<Rightarrow>
               Inr (\<lparr>gs_quote = q, rows = rws, supply_cols = spl,
                     letter_positions = build_letter_positions (answer q) rws,
                     placed_supply_letters = [], placed_count = 0,
                     used_supply_indices = []\<rparr>, g')))"

definition already_used :: "(nat \<times> nat) list \<Rightarrow> nat \<Rightarrow> nat \<Rightarrow> bool" where
  \<comment> \<open>\<open>any(used_col == col and used_idx == i for used_col, used_idx in used)\<close>\<close>
  "already_used used col i = list_ex (\<lambda>(used_col, used_idx). used_col = col \<and> used_idx = i) used"

fun find_supply :: "(nat \<times> nat) list \<Rightarrow> nat \<Rightarrow> char \<Rightarrow> nat \<Rightarrow> string \<Rightarrow> nat option" where
  \<comment> \<open>the scan of one supply column from index \<open>i\<close>: the first unused matching index\<close>
  "find_supply used col target i [] = None"
| "find_supply used col target i (supply_letter # rest) =
     (if \<not> already_used used col i \<and> supply_letter = target then Some i
      else find_supply used col target (Suc i) rest)"

definition supply_match :: "game_state \<Rightarrow> nat \<Rightarrow> char \<Rightarrow> nat option" where
  "supply_match s col target =
     (if col < length (supply_cols s)
      then find_supply (used_supply_indices s) col target 0 (supply_cols s ! col)
      else None)"

definition place_next_letter :: "game_state \<Rightarrow> py_error + (bool \<times> game_state)" where
  "place_next_letter s =
     (if placed_count s \<ge> length (letter_positions s) then Inr (False, s)
      else
        let pos_idx = placed_count s;
            (row, col) = letter_positions s ! pos_idx;
            answer_without_spaces = remove_spaces (answer (gs_quote s))
        in if pos_idx \<ge> length answer_without_spaces then Inl IndexError
           else
             let correct_letter = answer_without_spaces ! pos_idx;
                 used = (case supply_match s col correct_letter of
                           Some i \<Rightarrow> used_supply_indices s @ [(col, i)]
                         | None \<Rightarrow> used_supply_indices s)
             in Inr (True, s\<lparr>used_supply_indices := used,
                             placed_supply_letters := placed_supply_letters s @ [correct_letter],
                             placed_count := placed_count s + 1\<rparr>))"

fun run_steps :: "nat \<Rightarrow> game_state \<Rightarrow> py_error + game_state" where
  \<comment> \<open>\<open>n\<close> successive calls of \<open>place_next_letter\<close>\<close>
  "run_steps 0 s = Inr s"
| "run_steps (Suc n) s =
     (case place_next_letter s of Inl e \<Rightarrow> Inl e | Inr (ok, s') \<Rightarrow> run_steps n s')"

section \<open>Python floats\<close>

text \<open>
  A Python float is an IEEE 754 double. A finite double is modelled as the rational
  number it denotes, and an arithmetic operation on floats as the exact operation
  followed by rounding to the nearest double, ties to the even significand
  (\<open>round_double\<close>, 53 significant bits). Overflow to infinity and subnormal numbers
  are outside the range of the timeline's values and are not modelled.
\<close>

definition ilog2 :: "rat \<Rightarrow> int" where
  \<comment> \<open>for \<open>x > 0\<close>, the exponent \<open>e\<close> with \<open>2 ^ e \<le> x < 2 ^ (e + 1)\<close>\<close>
  "ilog2 x =
     (case quotient_of x of (p, q) \<Rightarrow>
        let d = bitlen p - bitlen q
        in if 2 powi d \<le> x then d else d - 1)"

definition round_half_even :: "rat \<Rightarrow> int" where
  "round_half_even m =
     (let f = \<lfloor>m\<rfloor>; r = m - of_int f
      in if r < 1 / 2 then f
         else if 1 / 2 < r then f + 1
         else if even f then f else f + 1)"

definition round_double :: "rat \<Rightarrow> rat" where
  "round_double x =
     (if x = 0 then 0
      else let q = ilog2 \<bar>x\<bar> - 52
           in sgn x * of_int (round_half_even (\<bar>x\<bar> / 2 powi q)) * 2 powi q)"

definition fadd :: "rat \<Rightarrow> rat \<Rightarrow> rat" where
  "fadd x y = round_double (x + y)"

definition fsub :: "rat \<Rightarrow> rat \<Rightarrow> rat" where
  "fsub x y = round_double (x - y)"

definition fmul :: "rat \<Rightarrow> rat \<Rightarrow> rat" where
  "fmul x y = round_double (x * y)"

definition fdiv :: "rat \<Rightarrow> rat \<Rightarrow> rat" where
  \<comment> \<open>every division of the modelled code has a divisor that a guard makes non-zero\<close>
  "fdiv x y = round_double (x / y)"

definition float_of_nat :: "nat \<Rightarrow> rat" where
  \<comment> \<open>the conversion of an \<open>int\<close> operand of a mixed \<open>int\<close>/\<open>float\<close> operation\<close>
  "float_of_nat n = round_double (of_nat n)"

definition int_truediv :: "nat \<Rightarrow> nat \<Rightarrow> rat" where
  \<comment> \<open>\<open>a / b\<close> on two \<open>int\<close>s: the correctly rounded quotient\<close>
  "int_truediv a b = round_double (of_nat a / of_nat b)"

section \<open>Timeline and frames (ReelGenerator.generate_video)\<close>

definition FPS :: nat where
  "FPS = 30"

definition pause_before_start :: rat where
  \<comment> \<open>the literal \<open>0.2\<close>\<close>
  "pause_before_start = round_double (2 / 10)"

definition max_solve_time :: rat where
  \<comment> \<open>the literal \<open>7.0\<close>\<close>
  "max_solve_time = 7"

definition max_time_per_letter :: rat where
  \<comment> \<open>the literal \<open>0.12\<close>\<close>
  "max_time_per_letter = round_double (12 / 100)"

definition reveal_fade_duration :: rat where
  \<comment> \<open>the literal \<open>1.0\<close>\<close>
  "reveal_fade_duration = 1"

definition time_per_letter :: "nat \<Rightarrow> rat" where
  "time_per_letter total_letters =
     (if total_letters > 0
      then (let available = max 0 (fsub max_solve_time pause_before_start)
            in if available > 0
               then min (fdiv available (float_of_nat total_letters)) max_time_per_letter
               else 0)
      else 0)"

definition solve_duration :: "nat \<Rightarrow> rat" where
  "solve_duration total_letters =
     fadd pause_before_start (fmul (float_of_nat total_letters) (time_per_letter total_letters))"

definition reveal_hold_duration :: "rat option \<Rightarrow> rat" where
  \<comment> \<open>the argument is the probed duration of the fanfare, \<open>None\<close> when it is not known\<close>
  "reveal_hold_duration win_fanfare_duration =
     (case win_fanfare_duration of
        Some d \<Rightarrow> max 0 (fsub d reveal_fade_duration)
      | None \<Rightarrow> 1)"

definition py_int :: "rat \<Rightarrow> int" where
  \<comment> \<open>\<open>int(x)\<close> truncates toward zero\<close>
  "py_int x = (if x \<ge> 0 then \<lfloor>x\<rfloor> else \<lceil>x\<rceil>)"

definition solve_frames :: "nat \<Rightarrow> int" where
  "solve_frames total_letters = py_int (fmul (solve_duration total_letters) (float_of_nat FPS))"

definition reveal_fade_frames :: int where
  "reveal_fade_frames = py_int (fmul reveal_fade_duration (float_of_nat FPS))"

definition reveal_hold_frames :: "rat option \<Rightarrow> int" where
  "reveal_hold_frames win_fanfare_duration =
     py_int (fmul (reveal_hold_duration win_fanfare_duration) (float_of_nat FPS))"

definition target_placed :: "int \<Rightarrow> nat \<Rightarrow> nat \<Rightarrow> int" where
  "target_placed n_solve_frames total_letters frame =
     (let time = int_truediv frame FPS;
          tpl = time_per_letter total_letters
      in if int frame = n_solve_frames - 1 then int total_letters
         else if time > pause_before_start \<and> tpl > 0
         then (let elapsed = fsub time pause_before_start
               in min (int total_letters) (py_int (fdiv elapsed tpl)))
         else 0)"

function place_until :: "int \<Rightarrow> game_state \<Rightarrow> py_error + game_state" where
  \<comment> \<open>\<open>while state.placed_count < target_placed: if not state.place_next_letter(): break\<close>\<close>
  "place_until target s =
     (if int (placed_count s) < target
      then (case place_next_letter s of
              Inl e \<Rightarrow> Inl e
            | Inr (ok, s') \<Rightarrow> if ok then place_until target s' else Inr s')
      else Inr s)"
  by pat_completeness auto
termination
  by (relation "measure (\<lambda>(target, s). nat (target - int (placed_count s)))")
     (auto simp: place_next_letter_def Let_def split: if_splits prod.splits)

text \<open>
  A frame is what the renderer is handed and where the image goes: the number in the
  file name \<open>frameNNNNN.png\<close>, the game state at that moment and the dissolve progress.
\<close>

record frame =
  frame_index :: int
  frame_state :: game_state
  frame_progress :: rat

fun solve_phase :: "int \<Rightarrow> nat \<Rightarrow> nat list \<Rightarrow> game_state \<Rightarrow> py_error + (frame list \<times> game_state)" where
  \<comment> \<open>phase 1, \<open>for frame in range(solve_frames)\<close>, over the remaining frame numbers\<close>
  "solve_phase n_solve_frames total_letters [] s = Inr ([], s)"
| "solve_phase n_solve_frames total_letters (f # fs) s =
     (case place_until (target_placed n_solve_frames total_letters f) s of
        Inl e \<Rightarrow> Inl e
      | Inr s' \<Rightarrow>
          (case solve_phase n_solve_frames total_letters fs s' of
             Inl e \<Rightarrow> Inl e
           | Inr (frs, s'') \<Rightarrow>
               Inr (\<lparr>frame_index = int f, frame_state = s', frame_progress = 0\<rparr> # frs, s'')))"

definition generate_frames :: "rat option \<Rightarrow> game_state \<Rightarrow> py_error + frame list" where
  "generate_frames win_fanfare_duration state =
     (let total_letters = length (letter_positions state);
          n_solve = solve_frames total_letters;
          n_fade = reveal_fade_frames;
          n_hold = reveal_hold_frames win_fanfare_duration
      in case solve_phase n_solve total_letters [0..<nat n_solve] state of
           Inl e \<Rightarrow> Inl e
         | Inr (frs1, state') \<Rightarrow>
             let frame_offset = n_solve;
                 frs2 = map (\<lambda>i. \<lparr>frame_index = frame_offset + int i, frame_state = state',
                                    frame_progress = int_truediv (i + 1) (nat (max n_fade 1))\<rparr>)
                            [0..<nat n_fade];
                 frame_offset2 = frame_offset + n_fade;
                 frs3 = map (\<lambda>i. \<lparr>frame_index = frame_offset2 + int i, frame_state = state',
                                    frame_progress = 1\<rparr>)
                            [0..<nat n_hold]
             in Inr (frs1 @ frs2 @ frs3))"

definition generate_video ::
  "(int \<Rightarrow> 'g) \<Rightarrow> ('g \<Rightarrow> nat \<Rightarrow> nat \<times> 'g) \<Rightarrow> 'g \<Rightarrow> rat option \<Rightarrow> quote \<Rightarrow> py_error + frame list" where
  \<comment> \<open>the frames written by \<open>generate_video\<close>, in writing order; encoding is left out\<close>
  "generate_video sd rb g win_fanfare_duration q =
     (case GameState_init sd rb g q of
        Inl e \<Rightarrow> Inl e
      | Inr (state, g') \<Rightarrow> generate_frames win_fanfare_duration state)"

section \<open>Daily selection (QuoteLibrary.get_daily_quote)\<close>

definition LIBRARY_OFFSET :: int where
  "LIBRARY_OFFSET = 0"

definition get_daily_quote :: "quote list \<Rightarrow> int \<Rightarrow> py_error + quote" where
  \<comment> \<open>the second argument is \<open>days_since_epoch\<close>, the day count the date arithmetic yields\<close>
  "get_daily_quote quotes days_since_epoch =
     (if days_since_epoch < 0
      then (if quotes = [] then Inl IndexError
            else (let preview = last quotes
                  in Inr \<lparr>qid = 0, qtext = qtext preview, author = author preview,
                          source = source preview\<rparr>))
      else if quotes = [] then Inl ZeroDivisionError
      else (let idx = (days_since_epoch + LIBRARY_OFFSET) mod int (length quotes);
                q = quotes ! nat idx
            in Inr \<lparr>qid = idx + 1, qtext = qtext q, author = author q, source = source q\<rparr>))"

section \<open>A sample generator\<close>

text \<open>
  A small linear congruential generator, used to run the definitions that take a
  generator on concrete inputs.
\<close>

definition sample_seed :: "int \<Rightarrow> nat" where
  "sample_seed n = nat \<bar>n\<bar>"

definition sample_randbelow :: "nat \<Rightarrow> nat \<Rightarrow> nat \<times> nat" where
  "sample_randbelow g n = (g mod n, (g * 75 + 74) mod 65537)"

section \<open>Runs of the simulator\<close>

definition step_found :: "game_state \<Rightarrow> bool" where
  \<comment> \<open>the next placement finds an unused matching letter in its supply column\<close>
  "step_found s =
     (supply_match s (snd (letter_positions s ! placed_count s))
        (remove_spaces (answer (gs_quote s)) ! placed_count s) \<noteq> None)"

fun all_found :: "nat \<Rightarrow> game_state \<Rightarrow> bool" where
  \<comment> \<open>in the next \<open>n\<close> calls, every call that places a letter finds its supply letter\<close>
  "all_found 0 s = True"
| "all_found (Suc n) s =
     (case place_next_letter s of
        Inl e \<Rightarrow> True
      | Inr (ok, s') \<Rightarrow> (if ok then step_found s else True) \<and> all_found n s')"

definition steps_ok :: "game_state \<Rightarrow> bool" where
  \<comment> \<open>every letter position has a character of the answer to place\<close>
  "steps_ok s = (length (letter_positions s) \<le> length (remove_spaces (answer (gs_quote s))))"

section \<open>Layout structure\<close>

definition lines_of :: "wrap_state \<Rightarrow> string list" where
  \<comment> \<open>the lines of a loop state once the current line is closed\<close>
  "lines_of st =
     (case st of (lines, current_line, current_length) \<Rightarrow>
        if current_line \<noteq> [] then lines @ [current_line] else lines)"

definition wrap_bounded :: "wrap_state \<Rightarrow> bool" where
  "wrap_bounded st =
     (case st of (lines, current_line, current_length) \<Rightarrow>
        current_length = length current_line \<and> length current_line \<le> GRID_COLS
        \<and> list_all (\<lambda>l. length l \<le> GRID_COLS) lines)"

definition pad_line :: "string \<Rightarrow> string" where
  \<comment> \<open>a line centred in a row of \<open>GRID_COLS\<close> cells, the extra filler on the right\<close>
  "pad_line l =
     replicate ((GRID_COLS - length l) div 2) CHR ''#'' @ l
     @ replicate (GRID_COLS - (GRID_COLS - length l) div 2 - length l) CHR ''#''"

definition cell_pos :: "nat \<times> nat \<times> char \<Rightarrow> nat \<times> nat" where
  "cell_pos cell = (fst cell, fst (snd cell))"

definition cell_char :: "nat \<times> nat \<times> char \<Rightarrow> char" where
  "cell_char cell = snd (snd cell)"

definition letter_cells :: "string list \<Rightarrow> (nat \<times> nat \<times> char) list" where
  \<comment> \<open>the Letter cells of a layout in row-major order\<close>
  "letter_cells rws = filter (\<lambda>cell. is_supply_letter (cell_char cell)) (scan_cells rws)"

section \<open>Reading a layout back\<close>

definition trim_blocks :: "string \<Rightarrow> string" where
  \<comment> \<open>a row without the Block cells at its two ends\<close>
  "trim_blocks row =
     rev (dropWhile (\<lambda>c. c = CHR ''#'') (rev (dropWhile (\<lambda>c. c = CHR ''#'') row)))"

definition block_to_space :: "char \<Rightarrow> char" where
  "block_to_space c = (if c = CHR ''#'' then CHR '' '' else c)"

fun join_spaces :: "string list \<Rightarrow> string" where
  \<comment> \<open>the pieces joined by single spaces\<close>
  "join_spaces [] = []"
| "join_spaces [x] = x"
| "join_spaces (x # y # ys) = x @ '' '' @ join_spaces (y # ys)"

definition claimed_row_text :: "string \<Rightarrow> string" where
  \<comment> \<open>the reconstruction of one row as the specification words it: the cells that are
      neither Block nor Punctuation, a space for a Block cell between two of them\<close>
  "claimed_row_text row =
     map block_to_space (filter (\<lambda>c. c \<notin> PUNCTUATION_MARKS) (trim_blocks row))"

definition claimed_layout_text :: "string list \<Rightarrow> string" where
  "claimed_layout_text rws = concat (map claimed_row_text rws)"

definition row_text :: "string \<Rightarrow> string" where
  \<comment> \<open>the non-Block cells of a row, a space for a Block cell between two of them\<close>
  "row_text row = map block_to_space (trim_blocks row)"

definition layout_text :: "string list \<Rightarrow> string" where
  \<comment> \<open>the rows' texts, consecutive rows joined by a space\<close>
  "layout_text rws = join_spaces (map row_text rws)"

definition good_line :: "string \<Rightarrow> bool" where
  "good_line l = (l \<noteq> [] \<and> hd l \<noteq> CHR ''#'' \<and> last l \<noteq> CHR ''#'')"

definition wrap_text :: "wrap_state \<Rightarrow> string list \<Rightarrow> bool" where
  \<comment> \<open>the loop state holds the words \<open>ws\<close>: its lines, decoded, spell them\<close>
  "wrap_text st ws =
     (case st of (lines, current_line, current_length) \<Rightarrow>
        (if current_line = [] then lines = [] \<and> ws = [] else ws \<noteq> [])
        \<and> list_all good_line (lines_of st)
        \<and> join_spaces (map (map block_to_space) (lines_of st)) = join_spaces ws)"

section \<open>Example data\<close>

definition comma_quote :: quote where
  "comma_quote = \<lparr>qid = 3, qtext = ''HI, YOU.'', author = ''Anon'', source = None\<rparr>"

definition comma_state :: game_state where
  \<comment> \<open>the game of \<open>comma_quote\<close> after two placements\<close>
  "comma_state =
     \<lparr>gs_quote = comma_quote, rows = [''##HI,#YOU###''],
      supply_cols = [[], [], ''H'', ''I'', [], [], ''Y'', ''O'', ''U'', [], [], []],
      letter_positions = [(0, 2), (0, 3), (0, 6), (0, 7), (0, 8)],
      placed_supply_letters = ''HI'', placed_count = 2,
      used_supply_indices = [(2, 0), (3, 0)]\<rparr>"

definition plain_quote :: quote where
  "plain_quote = \<lparr>qid = 7, qtext = ''HI YOU.'', author = ''Anon'', source = None\<rparr>"

definition plain_state :: game_state where
  \<comment> \<open>the game of \<open>plain_quote\<close> as constructed\<close>
  "plain_state =
     \<lparr>gs_quote = plain_quote, rows = [''###HI#YOU###''],
      supply_cols = [[], [], [], ''H'', ''I'', [], ''Y'', ''O'', ''U'', [], [], []],
      letter_positions = [(0, 3), (0, 4), (0, 6), (0, 7), (0, 8)],
      placed_supply_letters = [], placed_count = 0,
      used_supply_indices = []\<rparr>"

definition two_quotes :: "quote list" where
  "two_quotes =
     [\<lparr>qid = 41, qtext = ''HI YOU.'', author = ''A'', source = None\<rparr>,
      \<lparr>qid = 17, qtext = ''GO ON'', author = ''B'', source = Some ''Book''\<rparr>]"

definition two_rows :: "string list" where
  "two_rows = [''HELLO#WORLD#'', ''###AGAIN####'']"

section \<open>Verified properties: layout\<close>

text \<open>
  C2. Building the layout is claimed to complete for every answer, a word longer than
  \<open>GRID_COLS\<close> overflowing its own line. The centring loop writes such a word through
  \<open>row[left_pad + i]\<close> with a negative \<open>left_pad\<close>: a word of 14 letters reaches index 12
  of a 12-cell row and the build raises IndexError.
\<close>

theorem build_grid_long_word_raises:
  "build_grid ''RESPONSIBILITY'' = Inl IndexError"
  by code_simp

lemma build_lines_lines_of:
  "build_lines a = lines_of (foldl wrap_word ([], [], 0) (split_on_space a))"
  by (simp add: build_lines_def lines_of_def)

lemma wrap_word_bounded:
  assumes "wrap_bounded st" "length w \<le> GRID_COLS"
  shows "wrap_bounded (wrap_word st w)"
  using assms
  by (cases st) (auto simp: wrap_bounded_def wrap_word_def Let_def)

lemma wrap_word_letters:
  assumes "\<not> P CHR ''#''"
  shows "filter P (concat (lines_of (wrap_word st w)))
         = filter P (concat (lines_of st)) @ filter P w"
  using assms
  by (cases st) (auto simp: lines_of_def wrap_word_def Let_def)

lemma foldl_wrap_bounded:
  assumes "wrap_bounded st" "\<forall>w \<in> set ws. length w \<le> GRID_COLS"
  shows "wrap_bounded (foldl wrap_word st ws)"
  using assms
proof (induction ws arbitrary: st)
  case Nil
  then show ?case by simp
next
  case (Cons w ws)
  from Cons.prems have "wrap_bounded (wrap_word st w)"
    by (simp add: wrap_word_bounded)
  with Cons.IH[of "wrap_word st w"] Cons.prems show ?case by simp
qed

lemma foldl_wrap_letters:
  assumes "\<not> P CHR ''#''"
  shows "filter P (concat (lines_of (foldl wrap_word st ws)))
         = filter P (concat (lines_of st)) @ filter P (concat ws)"
proof (induction ws arbitrary: st)
  case Nil
  then show ?case by simp
next
  case (Cons w ws)
  show ?case
    using Cons.IH[of "wrap_word st w"] wrap_word_letters[of P st w] assms by simp
qed

lemma split_on_space_nonempty: "split_on_space a \<noteq> []"
  by (induction a) (auto split: list.splits)

lemma concat_split_on_space: "concat (split_on_space a) = remove_spaces a"
  by (induction a) (auto simp: remove_spaces_def split: list.splits)

lemma lines_of_bounded:
  assumes "wrap_bounded st"
  shows "\<forall>l \<in> set (lines_of st). length l \<le> GRID_COLS"
  using assms by (cases st) (auto simp: wrap_bounded_def lines_of_def list_all_iff)

lemma build_lines_bounded:
  assumes "\<forall>w \<in> set (split_on_space a). length w \<le> GRID_COLS"
  shows "\<forall>l \<in> set (build_lines a). length l \<le> GRID_COLS"
proof -
  have "wrap_bounded ([], [], 0)" by (simp add: wrap_bounded_def)
  from foldl_wrap_bounded[OF this assms] show ?thesis
    unfolding build_lines_lines_of by (rule lines_of_bounded)
qed

lemma build_lines_letters:
  assumes "\<not> P CHR ''#''"
  shows "filter P (concat (build_lines a)) = filter P (remove_spaces a)"
  unfolding build_lines_lines_of
  using foldl_wrap_letters[of P "([], [], 0)" "split_on_space a"] assms
  by (simp add: lines_of_def concat_split_on_space)

lemma place_chars_fits:
  assumes "0 \<le> k" "nat k + length cs \<le> length row"
  shows "place_chars row k cs
         = Inr (take (nat k) row @ cs @ drop (nat k + length cs) row)"
  using assms
proof (induction cs arbitrary: row k)
  case Nil
  then show ?case by simp
next
  case (Cons c cs)
  from Cons.prems have k: "nat k < length row" by simp
  with Cons.prems have set: "py_setitem row k c = Inr (row[nat k := c])"
    by (simp add: py_setitem_def Let_def)
  have k1: "0 \<le> k + 1" "nat (k + 1) = Suc (nat k)" using Cons.prems by simp_all
  have fit: "nat (k + 1) + length cs \<le> length (row[nat k := c])"
    using Cons.prems k1 by simp
  have "take (Suc (nat k)) (row[nat k := c]) = take (nat k) row @ [c]"
    using k by (simp add: take_Suc_conv_app_nth)
  moreover have "drop (Suc (nat k) + length cs) (row[nat k := c])
                 = drop (nat k + length (c # cs)) row"
    by simp
  ultimately show ?case
    using Cons.IH[OF k1(1) fit] set k1(2) by simp
qed

lemma center_row_fits:
  assumes "length l \<le> GRID_COLS"
  shows "center_row l = Inr (pad_line l)"
proof -
  let ?lp = "(int GRID_COLS - int (length l)) div 2"
  have lp: "?lp = int ((GRID_COLS - length l) div 2)"
    using assms by (simp add: of_nat_diff zdiv_int)
  have nonneg: "0 \<le> ?lp" unfolding lp by simp
  have fit: "nat ?lp + length l \<le> length (replicate GRID_COLS CHR ''#'')"
    unfolding lp using assms by simp
  from place_chars_fits[OF nonneg fit] show ?thesis
    unfolding center_row_def Let_def lp pad_line_def by simp
qed

lemma center_rows_fits:
  assumes "\<forall>l \<in> set ls. length l \<le> GRID_COLS"
  shows "center_rows ls = Inr (map pad_line ls)"
  using assms by (induction ls) (simp_all add: center_row_fits)

lemma build_grid_fits:
  assumes "\<forall>w \<in> set (split_on_space a). length w \<le> GRID_COLS"
  shows "build_grid a = Inr (map pad_line (build_lines a))"
  unfolding build_grid_def by (rule center_rows_fits[OF build_lines_bounded[OF assms]])

lemma pad_line_letters:
  assumes "\<not> P CHR ''#''"
  shows "filter P (pad_line l) = filter P l"
  using assms by (simp add: pad_line_def)

lemma pad_line_length: "length l \<le> GRID_COLS \<Longrightarrow> length (pad_line l) = GRID_COLS"
  by (simp add: pad_line_def)

lemma grid_letters:
  assumes "\<not> P CHR ''#''"
  shows "filter P (concat (map pad_line ls)) = filter P (concat ls)"
  using assms by (induction ls) (simp_all add: pad_line_letters)

lemma position_fold:
  assumes "length ps + length (filter (\<lambda>cell. is_supply_letter (cell_char cell)) cells) \<le> limit"
  shows "fst (foldl (position_step limit) (ps, length ps) cells)
         = ps @ map cell_pos (filter (\<lambda>cell. is_supply_letter (cell_char cell)) cells)"
  using assms
proof (induction cells arbitrary: ps)
  case Nil
  then show ?case by simp
next
  case (Cons cell cells)
  obtain r c ch where cell: "cell = (r, c, ch)" by (cases cell)
  show ?case
  proof (cases "is_supply_letter ch")
    case True
    with Cons.prems cell have lt: "length ps < limit" by (simp add: cell_char_def)
    have step: "position_step limit (ps, length ps) cell = (ps @ [(r, c)], length (ps @ [(r, c)]))"
      using True lt cell by (simp add: position_step_def)
    have "length (ps @ [(r, c)])
            + length (filter (\<lambda>cell. is_supply_letter (cell_char cell)) cells) \<le> limit"
      using Cons.prems True cell by (simp add: cell_char_def)
    from Cons.IH[OF this] step True cell show ?thesis
      by (simp add: cell_char_def cell_pos_def)
  next
    case False
    have step: "position_step limit (ps, length ps) cell = (ps, length ps)"
      using False cell by (simp add: position_step_def)
    have "length ps + length (filter (\<lambda>cell. is_supply_letter (cell_char cell)) cells) \<le> limit"
      using Cons.prems False cell by (simp add: cell_char_def)
    from Cons.IH[OF this] step False cell show ?thesis
      by (simp add: cell_char_def)
  qed
qed

lemma scan_cells_chars_gen:
  "map cell_char
     (concat (map (\<lambda>(r, row). map (\<lambda>(c', ch). (r, c', ch)) (enumerate 0 row)) (enumerate n rws)))
   = concat rws"
proof (induction rws arbitrary: n)
  case Nil
  then show ?case by simp
next
  case (Cons row rws)
  have "cell_char \<circ> Pair n = snd"
    by (rule ext) (simp add: cell_char_def)
  then have "map (cell_char \<circ> Pair n) (enumerate 0 row) = row"
    by simp
  with Cons.IH[of "Suc n"] show ?case by simp
qed

lemma scan_cells_chars: "map cell_char (scan_cells rws) = concat rws"
  unfolding scan_cells_def by (rule scan_cells_chars_gen)

lemma scan_cells_nth:
  assumes "cell \<in> set (scan_cells rws)"
  shows "rws ! fst (cell_pos cell) ! snd (cell_pos cell) = cell_char cell"
  using assms
  by (auto simp: scan_cells_def in_set_enumerate_eq cell_pos_def cell_char_def)

lemma letter_cells_chars:
  "map cell_char (letter_cells rws) = filter is_supply_letter (concat rws)"
  unfolding letter_cells_def scan_cells_chars[symmetric] filter_map comp_def ..

lemma letter_cells_nth:
  "map (\<lambda>(r, c). rws ! r ! c) (map cell_pos (letter_cells rws))
   = map cell_char (letter_cells rws)"
proof -
  have "\<forall>cell \<in> set (letter_cells rws). (\<lambda>(r, c). rws ! r ! c) (cell_pos cell) = cell_char cell"
    using scan_cells_nth[of _ rws] by (auto simp: letter_cells_def case_prod_unfold)
  then show ?thesis by simp
qed

lemma not_letter_block: "\<not> is_supply_letter CHR ''#''"
  by (simp add: is_supply_letter_def)

lemma built_letters:
  assumes "\<forall>w \<in> set (split_on_space a). length w \<le> GRID_COLS"
  shows "build_grid a = Inr (map pad_line (build_lines a))
         \<and> filter is_supply_letter (concat (map pad_line (build_lines a)))
             = filter is_supply_letter (remove_spaces a)"
  using build_grid_fits[OF assms] grid_letters[of is_supply_letter "build_lines a"]
    build_lines_letters[of is_supply_letter a] not_letter_block
  by simp

lemma built_positions:
  assumes "\<forall>w \<in> set (split_on_space a). length w \<le> GRID_COLS"
    and "rws = map pad_line (build_lines a)"
  shows "build_letter_positions a rws = map cell_pos (letter_cells rws)"
proof -
  have "length (letter_cells rws) = length (map cell_char (letter_cells rws))" by simp
  also have "\<dots> = length (filter is_supply_letter (remove_spaces a))"
    unfolding letter_cells_chars using built_letters[OF assms(1)] assms(2) by simp
  also have "\<dots> \<le> length (remove_spaces a)" by simp
  finally have "length ([]::(nat \<times> nat) list)
                  + length (filter (\<lambda>cell. is_supply_letter (cell_char cell)) (scan_cells rws))
                \<le> length (remove_spaces a)"
    by (simp add: letter_cells_def)
  from position_fold[OF this] show ?thesis
    by (simp add: build_letter_positions_def letter_cells_def)
qed

text \<open>
  C1. The claim gives the letter positions the length of the answer without its spaces.
  Punctuation marks (and \<open>#\<close>) of the answer are not Letter cells, so an answer with a
  comma has fewer letter positions than non-space characters.
\<close>

theorem letter_positions_layout_counterexample:
  "build_grid (answer comma_quote) = Inr [''##HI,#YOU###'']
   \<and> build_letter_positions (answer comma_quote) [''##HI,#YOU###'']
       = [(0, 2), (0, 3), (0, 6), (0, 7), (0, 8)]
   \<and> remove_spaces (answer comma_quote) = ''HI,YOU''
   \<and> length (build_letter_positions (answer comma_quote) [''##HI,#YOU###''])
       \<noteq> length (remove_spaces (answer comma_quote))"
  by code_simp

text \<open>
  C1, amended. For an answer whose words have at most \<open>GRID_COLS\<close> characters, the
  layout is built, the letter positions are the positions of the Letter cells in
  row-major order, the characters in those cells are the characters of the answer that
  are neither spaces, \<open>#\<close> nor punctuation marks, in order, and so their number is the
  length of the letter positions. When every character of the answer without spaces
  is such a letter, the placement at index \<open>i\<close> appends the \<open>i\<close>-th character of the
  answer without spaces, which is the character of the cell at position \<open>i\<close>.
\<close>

theorem letter_positions_layout:
  assumes words: "\<forall>w \<in> set (split_on_space (answer q)). length w \<le> GRID_COLS"
  shows "\<exists>rws. build_grid (answer q) = Inr rws
           \<and> build_letter_positions (answer q) rws = map cell_pos (letter_cells rws)
           \<and> map (\<lambda>(r, c). rws ! r ! c) (build_letter_positions (answer q) rws)
               = filter is_supply_letter (remove_spaces (answer q))
           \<and> length (build_letter_positions (answer q) rws)
               = length (filter is_supply_letter (remove_spaces (answer q)))
           \<and> (list_all is_supply_letter (remove_spaces (answer q)) \<longrightarrow>
                (\<forall>s. gs_quote s = q
                     \<and> letter_positions s = build_letter_positions (answer q) rws
                     \<and> placed_count s < length (letter_positions s) \<longrightarrow>
                   (\<exists>s'. place_next_letter s = Inr (True, s')
                      \<and> placed_supply_letters s'
                          = placed_supply_letters s
                            @ [remove_spaces (answer q) ! placed_count s]
                      \<and> remove_spaces (answer q) ! placed_count s
                          = (\<lambda>(r, c). rws ! r ! c) (letter_positions s ! placed_count s))))"
proof -
  let ?a = "answer q"
  let ?rws = "map pad_line (build_lines ?a)"
  let ?ps = "build_letter_positions ?a ?rws"
  from built_letters[OF words] have grid: "build_grid ?a = Inr ?rws"
    and letters: "filter is_supply_letter (concat ?rws) = filter is_supply_letter (remove_spaces ?a)"
    by simp_all
  have ps: "?ps = map cell_pos (letter_cells ?rws)"
    by (rule built_positions[OF words refl])
  have chars: "map (\<lambda>(r, c). ?rws ! r ! c) ?ps = filter is_supply_letter (remove_spaces ?a)"
    unfolding ps letter_cells_nth letter_cells_chars letters ..
  have len: "length ?ps = length (filter is_supply_letter (remove_spaces ?a))"
    using arg_cong[OF chars, of length] by simp
  have steps: "list_all is_supply_letter (remove_spaces ?a) \<longrightarrow>
                (\<forall>s. gs_quote s = q \<and> letter_positions s = ?ps
                     \<and> placed_count s < length (letter_positions s) \<longrightarrow>
                   (\<exists>s'. place_next_letter s = Inr (True, s')
                      \<and> placed_supply_letters s'
                          = placed_supply_letters s @ [remove_spaces ?a ! placed_count s]
                      \<and> remove_spaces ?a ! placed_count s
                          = (\<lambda>(r, c). ?rws ! r ! c) (letter_positions s ! placed_count s)))"
  proof (intro impI allI)
    fix s :: game_state
    assume all: "list_all is_supply_letter (remove_spaces ?a)"
      and s: "gs_quote s = q \<and> letter_positions s = ?ps
                \<and> placed_count s < length (letter_positions s)"
    from all have id: "filter is_supply_letter (remove_spaces ?a) = remove_spaces ?a"
      by (simp add: list_all_iff)
    from s have sq: "gs_quote s = q" and lp: "letter_positions s = ?ps" by blast+
    from s lp have lt2: "placed_count s < length ?ps" by simp
    with len id have lt: "placed_count s < length (remove_spaces ?a)" by simp
    have "(\<lambda>(r, c). ?rws ! r ! c) (?ps ! placed_count s)
            = map (\<lambda>(r, c). ?rws ! r ! c) ?ps ! placed_count s"
      using lt2 by simp
    also have "\<dots> = remove_spaces ?a ! placed_count s"
      unfolding chars id ..
    finally have cell: "remove_spaces ?a ! placed_count s
                          = (\<lambda>(r, c). ?rws ! r ! c) (letter_positions s ! placed_count s)"
      using lp by simp
    obtain s' where s': "s' = snd (projr (place_next_letter s))" by simp
    have "place_next_letter s = Inr (True, s')
            \<and> placed_supply_letters s'
                 = placed_supply_letters s @ [remove_spaces ?a ! placed_count s]"
      using sq lp lt2 lt unfolding s'
      by (auto simp: place_next_letter_def Let_def split: prod.splits)
    with cell show "\<exists>s'. place_next_letter s = Inr (True, s')
                      \<and> placed_supply_letters s'
                          = placed_supply_letters s @ [remove_spaces ?a ! placed_count s]
                      \<and> remove_spaces ?a ! placed_count s
                          = (\<lambda>(r, c). ?rws ! r ! c) (letter_positions s ! placed_count s)"
      by blast
  qed
  show ?thesis
    by (rule exI[of _ ?rws]) (use grid ps chars len steps in blast)
qed

theorem letter_positions_layout_witness:
  "\<exists>rws. build_grid (answer plain_quote) = Inr rws
      \<and> length (build_letter_positions (answer plain_quote) rws) = 5
      \<and> (\<exists>s'. place_next_letter plain_state = Inr (True, s')
             \<and> placed_supply_letters s' = ''H'')"
proof -
  have ans: "answer plain_quote = ''HI YOU''"
    by code_simp
  have h: "\<forall>w \<in> set (split_on_space (answer plain_quote)). length w \<le> GRID_COLS"
    by (simp add: ans GRID_COLS_def)
  have all: "list_all is_supply_letter (remove_spaces (answer plain_quote))"
    by (simp add: ans remove_spaces_def is_supply_letter_def PUNCTUATION_MARKS_def)
  have five: "length (filter is_supply_letter (remove_spaces (answer plain_quote))) = 5"
    by (simp add: ans remove_spaces_def is_supply_letter_def PUNCTUATION_MARKS_def)
  have g0: "build_grid (answer plain_quote) = Inr [''###HI#YOU###'']"
    by code_simp
  have lp0: "letter_positions plain_state
               = build_letter_positions (answer plain_quote) [''###HI#YOU###'']"
    by code_simp
  from letter_positions_layout[OF h] obtain rws where
    g: "build_grid (answer plain_quote) = Inr rws"
    and len: "length (build_letter_positions (answer plain_quote) rws)
               = length (filter is_supply_letter (remove_spaces (answer plain_quote)))"
    and steps: "list_all is_supply_letter (remove_spaces (answer plain_quote)) \<longrightarrow>
                (\<forall>s. gs_quote s = plain_quote
                     \<and> letter_positions s = build_letter_positions (answer plain_quote) rws
                     \<and> placed_count s < length (letter_positions s) \<longrightarrow>
                   (\<exists>s'. place_next_letter s = Inr (True, s')
                      \<and> placed_supply_letters s'
                          = placed_supply_letters s
                            @ [remove_spaces (answer plain_quote) ! placed_count s]
                      \<and> remove_spaces (answer plain_quote) ! placed_count s
                          = (\<lambda>(r, c). rws ! r ! c) (letter_positions s ! placed_count s)))"
    by blast
  from g g0 have rws: "rws = [''###HI#YOU###'']" by simp
  have pre: "gs_quote plain_state = plain_quote
               \<and> letter_positions plain_state = build_letter_positions (answer plain_quote) rws
               \<and> placed_count plain_state < length (letter_positions plain_state)"
    unfolding rws lp0[symmetric] by (simp add: plain_state_def)
  from steps all pre obtain s' where
    "place_next_letter plain_state = Inr (True, s')"
    "placed_supply_letters s'
       = placed_supply_letters plain_state
         @ [remove_spaces (answer plain_quote) ! placed_count plain_state]"
    by blast
  moreover have "placed_supply_letters plain_state
         @ [remove_spaces (answer plain_quote) ! placed_count plain_state] = ''H''"
    by (simp add: plain_state_def ans remove_spaces_def)
  ultimately show ?thesis using g len five by auto
qed

lemma join_spaces_snoc:
  "xs \<noteq> [] \<Longrightarrow> join_spaces (xs @ [w]) = join_spaces xs @ '' '' @ w"
  by (induction xs rule: join_spaces.induct) simp_all

lemma join_spaces_snoc_append:
  "join_spaces (xs @ [y @ z]) = join_spaces (xs @ [y]) @ z"
  by (induction xs rule: join_spaces.induct) simp_all

lemma join_split_on_space: "join_spaces (split_on_space a) = a"
proof (induction a)
  case Nil
  then show ?case by simp
next
  case (Cons c cs)
  obtain w ws where sp: "split_on_space cs = w # ws"
    using split_on_space_nonempty[of cs] by (cases "split_on_space cs") auto
  with Cons.IH have j: "join_spaces (w # ws) = cs" by simp
  show ?case
  proof (cases "c = CHR '' ''")
    case True
    with sp j show ?thesis by simp
  next
    case False
    have "join_spaces ((c # w) # ws) = c # join_spaces (w # ws)"
      by (cases ws) simp_all
    with False sp j show ?thesis by simp
  qed
qed

lemma block_to_space_word:
  "CHR ''#'' \<notin> set w \<Longrightarrow> map block_to_space w = w"
  by (induction w) (auto simp: block_to_space_def)

lemma good_line_word:
  "w \<noteq> [] \<Longrightarrow> CHR ''#'' \<notin> set w \<Longrightarrow> good_line w"
  by (metis good_line_def hd_in_set last_in_set)

lemma good_line_extend:
  assumes "good_line l" "good_line w"
  shows "good_line (l @ ''#'' @ w)"
  using assms by (auto simp: good_line_def)

lemma wrap_word_text:
  assumes inv: "wrap_text st ws" and bnd: "wrap_bounded st"
    and w: "w \<noteq> []" "CHR ''#'' \<notin> set w" "length w \<le> GRID_COLS"
  shows "wrap_text (wrap_word st w) (ws @ [w])"
proof -
  obtain lines cur len where st: "st = (lines, cur, len)" by (cases st)
  from bnd st have len: "len = length cur" by (simp add: wrap_bounded_def)
  have gw: "good_line w" using w by (simp add: good_line_word)
  have dw: "map block_to_space w = w" using w by (simp add: block_to_space_word)
  show ?thesis
  proof (cases "cur = []")
    case True
    with inv st have e: "lines = []" "ws = []" by (simp_all add: wrap_text_def)
    from True len w have "wrap_word st w = ([], w, length w)"
      by (simp add: wrap_word_def st e Let_def)
    then show ?thesis using w gw dw e by (simp add: wrap_text_def lines_of_def)
  next
    case False
    with inv st have ws: "ws \<noteq> []" and good: "list_all good_line (lines @ [cur])"
      and spelt: "join_spaces (map (map block_to_space) (lines @ [cur])) = join_spaces ws"
      by (simp_all add: wrap_text_def lines_of_def)
    show ?thesis
    proof (cases "len + 1 + length w \<le> GRID_COLS")
      case True
      with False have step: "wrap_word st w = (lines, (cur @ ''#'') @ w, (len + 1) + length w)"
        using w by (simp add: wrap_word_def st Let_def)
      have g: "list_all good_line (lines @ [(cur @ ''#'') @ w])"
        using good good_line_extend[of cur w] gw by simp
      have "join_spaces (map (map block_to_space) (lines @ [(cur @ ''#'') @ w]))
              = join_spaces (map (map block_to_space) lines
                  @ [map block_to_space cur @ ('' '' @ w)])"
        using dw by (simp add: block_to_space_def)
      also have "\<dots> = join_spaces (map (map block_to_space) lines @ [map block_to_space cur])
                        @ ('' '' @ w)"
        by (rule join_spaces_snoc_append)
      also have "\<dots> = join_spaces ws @ '' '' @ w" using spelt by simp
      also have "\<dots> = join_spaces (ws @ [w])" using ws by (simp add: join_spaces_snoc)
      finally show ?thesis
        using step g ws by (simp add: wrap_text_def lines_of_def)
    next
      case over: False
      with False have step: "wrap_word st w = (lines @ [cur], w, length w)"
        using w by (simp add: wrap_word_def st Let_def)
      have g: "list_all good_line ((lines @ [cur]) @ [w])" using good gw by simp
      have "join_spaces (map (map block_to_space) ((lines @ [cur]) @ [w]))
              = join_spaces (map (map block_to_space) (lines @ [cur]) @ [w])"
        using dw by simp
      also have "\<dots> = join_spaces (map (map block_to_space) (lines @ [cur])) @ '' '' @ w"
        by (rule join_spaces_snoc) simp
      also have "\<dots> = join_spaces (ws @ [w])" using spelt ws by (simp add: join_spaces_snoc)
      finally show ?thesis
        using step g w ws by (simp add: wrap_text_def lines_of_def)
    qed
  qed
qed

lemma foldl_wrap_text:
  assumes "wrap_text st ws" "wrap_bounded st"
    and "\<forall>w \<in> set ws'. w \<noteq> [] \<and> length w \<le> GRID_COLS \<and> CHR ''#'' \<notin> set w"
  shows "wrap_text (foldl wrap_word st ws') (ws @ ws')"
  using assms
proof (induction ws' arbitrary: st ws)
  case Nil
  then show ?case by simp
next
  case (Cons w ws')
  from Cons.prems have w: "w \<noteq> []" "CHR ''#'' \<notin> set w" "length w \<le> GRID_COLS" by simp_all
  have t: "wrap_text (wrap_word st w) (ws @ [w])"
    by (rule wrap_word_text[OF Cons.prems(1,2) w])
  have b: "wrap_bounded (wrap_word st w)"
    by (rule wrap_word_bounded[OF Cons.prems(2) w(3)])
  have r: "\<forall>w \<in> set ws'. w \<noteq> [] \<and> length w \<le> GRID_COLS \<and> CHR ''#'' \<notin> set w"
    using Cons.prems(3) by simp
  from Cons.IH[OF t b r] show ?case by simp
qed

lemma build_lines_text:
  assumes "\<forall>w \<in> set (split_on_space a). w \<noteq> [] \<and> length w \<le> GRID_COLS \<and> CHR ''#'' \<notin> set w"
  shows "list_all good_line (build_lines a)
         \<and> join_spaces (map (map block_to_space) (build_lines a)) = a"
proof -
  have t0: "wrap_text ([], [], 0) []" by (simp add: wrap_text_def lines_of_def)
  have b0: "wrap_bounded ([], [], 0)" by (simp add: wrap_bounded_def)
  from foldl_wrap_text[OF t0 b0 assms]
  have "wrap_text (foldl wrap_word ([], [], 0) (split_on_space a)) (split_on_space a)" by simp
  then show ?thesis
    unfolding build_lines_lines_of
    by (cases "foldl wrap_word ([], [], 0) (split_on_space a)")
       (simp add: wrap_text_def join_split_on_space)
qed

lemma dropWhile_replicate_blocks:
  "dropWhile (\<lambda>c. c = x) (replicate n x @ ys) = dropWhile (\<lambda>c. c = x) ys"
  by (induction n) simp_all

lemma trim_blocks_pad_line:
  assumes "good_line l"
  shows "trim_blocks (pad_line l) = l"
proof -
  from assms obtain c cs where l: "l = c # cs" and c: "c \<noteq> CHR ''#''"
    by (cases l) (auto simp: good_line_def)
  from assms have "rev l \<noteq> []" "hd (rev l) \<noteq> CHR ''#''"
    by (auto simp: good_line_def hd_rev)
  then obtain d ds where rl: "rev l = d # ds" and d: "d \<noteq> CHR ''#''"
    by (cases "rev l") auto
  let ?n = "(GRID_COLS - length l) div 2"
  let ?m = "GRID_COLS - (GRID_COLS - length l) div 2 - length l"
  have "dropWhile (\<lambda>c. c = CHR ''#'') (pad_line l)
          = dropWhile (\<lambda>c. c = CHR ''#'') (l @ replicate ?m CHR ''#'')"
    unfolding pad_line_def by (rule dropWhile_replicate_blocks)
  also have "\<dots> = l @ replicate ?m CHR ''#''"
    unfolding l using c by simp
  finally have front: "dropWhile (\<lambda>c. c = CHR ''#'') (pad_line l) = l @ replicate ?m CHR ''#''" .
  have "dropWhile (\<lambda>c. c = CHR ''#'') (rev (l @ replicate ?m CHR ''#''))
          = dropWhile (\<lambda>c. c = CHR ''#'') (replicate ?m CHR ''#'' @ rev l)"
    by simp
  also have "\<dots> = dropWhile (\<lambda>c. c = CHR ''#'') (rev l)"
    by (rule dropWhile_replicate_blocks)
  also have "\<dots> = rev l" unfolding rl using d by simp
  finally have rear: "dropWhile (\<lambda>c. c = CHR ''#'') (rev (l @ replicate ?m CHR ''#'')) = rev l" .
  show ?thesis unfolding trim_blocks_def front rear by simp
qed

lemma layout_text_pad:
  assumes "list_all good_line ls"
  shows "map row_text (map pad_line ls) = map (map block_to_space) ls"
  using assms by (induction ls) (simp_all add: row_text_def trim_blocks_pad_line)

text \<open>
  C3. The claim reads the answer back from the layout by concatenating the cells that
  are neither Block nor Punctuation, with a space for a Block between two letters of a
  row. Where the answer was wrapped, the space between the last word of one row and the
  first word of the next has no cell, and a punctuation mark of the answer is dropped:
  a two-row answer and an answer with a comma are not reproduced.
\<close>

theorem layout_reconstruction_counterexample:
  "build_grid ''HELLO WORLD AGAIN'' = Inr [''HELLO#WORLD#'', ''###AGAIN####'']
   \<and> claimed_layout_text [''HELLO#WORLD#'', ''###AGAIN####''] = ''HELLO WORLDAGAIN''
   \<and> claimed_layout_text [''HELLO#WORLD#'', ''###AGAIN####''] \<noteq> ''HELLO WORLD AGAIN''
   \<and> build_grid ''HI, YOU'' = Inr [''##HI,#YOU###'']
   \<and> claimed_layout_text [''##HI,#YOU###''] = ''HI YOU''
   \<and> claimed_layout_text [''##HI,#YOU###''] \<noteq> ''HI, YOU''"
  by code_simp

text \<open>
  C3, amended. For an answer made of non-empty words of at most \<open>GRID_COLS\<close> characters
  without \<open>#\<close>, separated by single spaces, the layout is built, and concatenating the
  non-Block cells of each row (Letter and Punctuation cells), with a space for each
  Block cell between two of them and a space between consecutive rows, reproduces the
  answer.
\<close>

theorem layout_reconstruction:
  assumes "\<forall>w \<in> set (split_on_space a). w \<noteq> [] \<and> length w \<le> GRID_COLS \<and> CHR ''#'' \<notin> set w"
  shows "\<exists>rws. build_grid a = Inr rws \<and> layout_text rws = a"
proof -
  from assms have len: "\<forall>w \<in> set (split_on_space a). length w \<le> GRID_COLS" by simp
  have grid: "build_grid a = Inr (map pad_line (build_lines a))"
    by (rule build_grid_fits[OF len])
  from build_lines_text[OF assms] have good: "list_all good_line (build_lines a)"
    and spelt: "join_spaces (map (map block_to_space) (build_lines a)) = a" by simp_all
  have "layout_text (map pad_line (build_lines a)) = a"
    unfolding layout_text_def layout_text_pad[OF good] by (rule spelt)
  with grid show ?thesis by blast
qed

theorem layout_reconstruction_witness:
  "\<exists>rws. build_grid ''HELLO WORLD AGAIN'' = Inr rws \<and> layout_text rws = ''HELLO WORLD AGAIN''"
proof -
  have sp: "split_on_space ''HELLO WORLD AGAIN'' = [''HELLO'', ''WORLD'', ''AGAIN'']"
    by code_simp
  have "\<forall>w \<in> set (split_on_space ''HELLO WORLD AGAIN'').
          w \<noteq> [] \<and> length w \<le> GRID_COLS \<and> CHR ''#'' \<notin> set w"
    unfolding sp by (simp add: GRID_COLS_def)
  from layout_reconstruction[OF this] show ?thesis .
qed

section \<open>Verified properties: supply\<close>

lemma shuffle_from_ok:
  assumes "\<forall>g n. 0 < n \<longrightarrow> fst (rb g n) < n" "k < length xs \<or> k = 0"
  shows "\<exists>ys g'. shuffle_from rb k xs g = Inr (ys, g') \<and> mset ys = mset xs
           \<and> length ys = length xs"
  using assms(2)
proof (induction k arbitrary: xs g)
  case 0
  then show ?case by simp
next
  case (Suc k)
  obtain j g1 where draw: "rb g (Suc k + 1) = (j, g1)" by (cases "rb g (Suc k + 1)")
  have "fst (rb g (Suc k + 1)) < Suc k + 1" using assms(1) by simp
  with draw have j: "j < Suc k + 1" by simp
  from Suc.prems have k: "Suc k < length xs" by simp
  with j have jl: "j < length xs" by simp
  let ?xs = "xs[Suc k := xs ! j, j := xs ! Suc k]"
  have m: "mset ?xs = mset xs" using mset_swap[OF jl k] by simp
  have "k < length ?xs \<or> k = 0" using k by simp
  from Suc.IH[OF this, of g1] obtain ys g' where
    "shuffle_from rb k ?xs g1 = Inr (ys, g')" "mset ys = mset ?xs" "length ys = length ?xs"
    by blast
  with draw k jl m show ?case by simp
qed

lemma shuffle_ok:
  assumes "\<forall>g n. 0 < n \<longrightarrow> fst (rb g n) < n"
  shows "\<exists>ys g'. shuffle rb xs g = Inr (ys, g') \<and> mset ys = mset xs"
proof -
  have "length xs - 1 < length xs \<or> length xs - 1 = 0" by (cases xs) auto
  from shuffle_from_ok[OF assms this, of g] show ?thesis by (auto simp: shuffle_def)
qed

lemma stream_state_Cons:
  "shuffle rb col g = Inr (col', g1) \<Longrightarrow>
   stream_state rb (col # cols) g (Suc c) = stream_state rb cols g1 c"
proof (induction c)
  case 0
  then show ?case by simp
next
  case (Suc c)
  show ?case
    unfolding stream_state.simps(2)[of rb "col # cols" g "Suc c"] Suc.IH[OF Suc.prems]
    by simp
qed

lemma shuffle_columns_ok:
  assumes "\<forall>g n. 0 < n \<longrightarrow> fst (rb g n) < n"
  shows "\<exists>cols' g'. shuffle_columns rb cols g = Inr (cols', g')
           \<and> length cols' = length cols
           \<and> g' = stream_state rb cols g (length cols)
           \<and> (\<forall>c < length cols.
                 mset (cols' ! c) = mset (cols ! c)
                 \<and> shuffle rb (cols ! c) (stream_state rb cols g c)
                     = Inr (cols' ! c, stream_state rb cols g (Suc c)))"
proof (induction cols arbitrary: g)
  case Nil
  then show ?case by simp
next
  case (Cons col cols)
  from shuffle_ok[OF assms, of col g] obtain col' g1 where
    sh: "shuffle rb col g = Inr (col', g1)" and m: "mset col' = mset col" by blast
  from Cons.IH[of g1] obtain cols' g' where
    rest: "shuffle_columns rb cols g1 = Inr (cols', g')"
    and len: "length cols' = length cols"
    and g': "g' = stream_state rb cols g1 (length cols)"
    and each: "\<forall>c < length cols.
                 mset (cols' ! c) = mset (cols ! c)
                 \<and> shuffle rb (cols ! c) (stream_state rb cols g1 c)
                     = Inr (cols' ! c, stream_state rb cols g1 (Suc c))"
    by blast
  have all: "\<forall>c < length (col # cols).
                 mset ((col' # cols') ! c) = mset ((col # cols) ! c)
                 \<and> shuffle rb ((col # cols) ! c) (stream_state rb (col # cols) g c)
                     = Inr ((col' # cols') ! c, stream_state rb (col # cols) g (Suc c))"
  proof (intro allI impI)
    fix c assume c: "c < length (col # cols)"
    show "mset ((col' # cols') ! c) = mset ((col # cols) ! c)
                 \<and> shuffle rb ((col # cols) ! c) (stream_state rb (col # cols) g c)
                     = Inr ((col' # cols') ! c, stream_state rb (col # cols) g (Suc c))"
    proof (cases c)
      case 0
      with sh m show ?thesis by simp
    next
      case (Suc c')
      with c have c': "c' < length cols" by simp
      from each[rule_format, OF c'] show ?thesis
        unfolding Suc stream_state_Cons[OF sh] by simp
    qed
  qed
  have "stream_state rb (col # cols) g (length (col # cols)) = g'"
    using stream_state_Cons[OF sh, of cols "length cols"] g' by simp
  with sh rest len all show ?case by simp
qed


lemma fold_supply_add:
  assumes "\<forall>cell \<in> set cells. fst (snd cell) < length spl"
  shows "\<exists>spl'. fold_err supply_add spl cells = Inr spl' \<and> length spl' = length spl
           \<and> (\<forall>c < length spl.
                 spl' ! c = spl ! c @ map (\<lambda>cell. snd (snd cell))
                   (filter (\<lambda>cell. fst (snd cell) = c \<and> is_supply_letter (snd (snd cell))) cells))"
  using assms
proof (induction cells arbitrary: spl)
  case Nil
  then show ?case by simp
next
  case (Cons cell cells)
  obtain r c ch where cell: "cell = (r, c, ch)" by (cases cell)
  from Cons.prems cell have c: "c < length spl" by simp
  let ?spl = "if is_supply_letter ch then spl[c := spl ! c @ [ch]] else spl"
  have step: "supply_add spl cell = Inr ?spl"
    using c cell by (simp add: supply_add_def)
  have len: "length ?spl = length spl" by simp
  have "\<forall>cell \<in> set cells. fst (snd cell) < length ?spl"
    using Cons.prems by simp
  from Cons.IH[OF this] obtain spl' where
    run: "fold_err supply_add ?spl cells = Inr spl'" and l': "length spl' = length ?spl"
    and each: "\<forall>c' < length ?spl.
                 spl' ! c' = ?spl ! c' @ map (\<lambda>cell. snd (snd cell))
                   (filter (\<lambda>cell. fst (snd cell) = c' \<and> is_supply_letter (snd (snd cell))) cells)"
    by blast
  have "\<forall>c' < length spl.
          spl' ! c' = spl ! c' @ map (\<lambda>cell. snd (snd cell))
            (filter (\<lambda>cell. fst (snd cell) = c' \<and> is_supply_letter (snd (snd cell))) (cell # cells))"
  proof (intro allI impI)
    fix c' assume c': "c' < length spl"
    with each have "spl' ! c' = ?spl ! c' @ map (\<lambda>cell. snd (snd cell))
                   (filter (\<lambda>cell. fst (snd cell) = c' \<and> is_supply_letter (snd (snd cell))) cells)"
      by simp
    then show "spl' ! c' = spl ! c' @ map (\<lambda>cell. snd (snd cell))
            (filter (\<lambda>cell. fst (snd cell) = c' \<and> is_supply_letter (snd (snd cell))) (cell # cells))"
      using c c' cell by (auto simp: nth_list_update)
  qed
  with step run l' len show ?case by simp
qed

lemma row_cells_column:
  "map (\<lambda>cell. snd (snd cell))
     (filter (\<lambda>cell. fst (snd cell) = c \<and> P (snd (snd cell)))
        (map (\<lambda>(c', ch). (r, c', ch)) (enumerate n row)))
   = (if n \<le> c \<and> c < n + length row \<and> P (row ! (c - n)) then [row ! (c - n)] else [])"
proof (induction row arbitrary: n)
  case Nil
  then show ?case by simp
next
  case (Cons x row)
  show ?case
    using Cons.IH[of "Suc n"] by (auto simp: nth_Cons' Suc_diff_le)
qed

lemma scan_cells_column_gen:
  assumes "\<forall>row \<in> set rws. c < length row"
  shows "map (\<lambda>cell. snd (snd cell))
     (filter (\<lambda>cell. fst (snd cell) = c \<and> P (snd (snd cell)))
        (concat (map (\<lambda>(r, row). map (\<lambda>(c', ch). (r, c', ch)) (enumerate 0 row)) (enumerate n rws))))
   = filter P (map (\<lambda>row. row ! c) rws)"
  using assms
proof (induction rws arbitrary: n)
  case Nil
  then show ?case by simp
next
  case (Cons row rws)
  from Cons.prems have c: "c < length row" by simp
  have rest: "\<forall>row \<in> set rws. c < length row" using Cons.prems by simp
  show ?case
    using Cons.IH[OF rest, of "Suc n"] row_cells_column[of c P n 0 row] c
    by simp
qed

lemma scan_cells_column:
  assumes "\<forall>row \<in> set rws. c < length row"
  shows "map (\<lambda>cell. snd (snd cell))
     (filter (\<lambda>cell. fst (snd cell) = c \<and> P (snd (snd cell))) (scan_cells rws))
   = filter P (map (\<lambda>row. row ! c) rws)"
  unfolding scan_cells_def by (rule scan_cells_column_gen[OF assms])

lemma scan_cells_bound_gen:
  assumes "cell \<in> set (concat (map (\<lambda>(r, row). map (\<lambda>(c', ch). (r, c', ch)) (enumerate 0 row)) (enumerate n rws)))"
  shows "\<exists>row \<in> set rws. fst (snd cell) < length row"
proof -
  from assms obtain r c where
    r: "n \<le> r" "r < length rws + n" and c: "c < length (rws ! (r - n))" "fst (snd cell) = c"
    by (auto simp: in_set_enumerate_eq)
  from r have "r - n < length rws" by arith
  then have "rws ! (r - n) \<in> set rws" by (rule nth_mem)
  with c show ?thesis by auto
qed

lemma bucket_supply_columns:
  assumes "\<forall>row \<in> set rws. length row = GRID_COLS"
  shows "\<exists>cols. bucket_supply rws = Inr cols \<and> length cols = GRID_COLS
           \<and> (\<forall>c < GRID_COLS. cols ! c = filter is_supply_letter (map (\<lambda>row. row ! c) rws))"
proof -
  have bound: "\<forall>cell \<in> set (scan_cells rws). fst (snd cell) < length (replicate GRID_COLS ([]::string))"
    using scan_cells_bound_gen[of _ 0 rws] assms unfolding scan_cells_def by fastforce
  from fold_supply_add[OF bound] obtain cols where
    run: "fold_err supply_add (replicate GRID_COLS []) (scan_cells rws) = Inr cols"
    and len: "length cols = GRID_COLS"
    and each: "\<forall>c < GRID_COLS.
                 cols ! c = replicate GRID_COLS [] ! c @ map (\<lambda>cell. snd (snd cell))
                   (filter (\<lambda>cell. fst (snd cell) = c \<and> is_supply_letter (snd (snd cell))) (scan_cells rws))"
    by auto
  have "\<forall>c < GRID_COLS. cols ! c = filter is_supply_letter (map (\<lambda>row. row ! c) rws)"
  proof (intro allI impI)
    fix c assume c: "c < GRID_COLS"
    then have "\<forall>row \<in> set rws. c < length row" using assms by simp
    from scan_cells_column[OF this, of is_supply_letter] each c
    show "cols ! c = filter is_supply_letter (map (\<lambda>row. row ! c) rws)" by simp
  qed
  with run len show ?thesis by (simp add: bucket_supply_def)
qed

lemma sample_randbelow_draws: "\<forall>g n. 0 < n \<longrightarrow> fst (sample_randbelow g n) < n"
  by (simp add: sample_randbelow_def)

lemma two_rows_layout: "\<forall>row \<in> set two_rows. length row = GRID_COLS"
  by (simp add: two_rows_def GRID_COLS_def)

text \<open>
  C5. For a layout whose rows all have \<open>GRID_COLS\<close> cells and a generator whose draws
  \<open>randbelow(n)\<close> lie below \<open>n\<close>, building the supply returns \<open>GRID_COLS\<close> columns, and
  for every column index the shuffled column holds the same multiset of letters as the
  Letter cells of that column of the layout.
\<close>

theorem supply_column_multiset:
  assumes draws: "\<forall>g n. 0 < n \<longrightarrow> fst (rb g n) < n"
    and layout: "\<forall>row \<in> set rws. length row = GRID_COLS"
  shows "\<exists>spl g'. build_supply sd rb g seed rws = Inr (spl, g') \<and> length spl = GRID_COLS
           \<and> (\<forall>c < GRID_COLS.
                 mset (spl ! c) = mset (filter is_supply_letter (map (\<lambda>row. row ! c) rws)))"
proof -
  from bucket_supply_columns[OF layout] obtain cols where
    b: "bucket_supply rws = Inr cols" and len: "length cols = GRID_COLS"
    and each: "\<forall>c < GRID_COLS. cols ! c = filter is_supply_letter (map (\<lambda>row. row ! c) rws)"
    by blast
  from shuffle_columns_ok[OF draws, of cols "sd seed"] obtain spl g' where
    sh: "shuffle_columns rb cols (sd seed) = Inr (spl, g')" and l': "length spl = length cols"
    and m: "\<forall>c < length cols. mset (spl ! c) = mset (cols ! c)"
    by blast
  from b sh have "build_supply sd rb g seed rws = Inr (spl, g')"
    by (simp add: build_supply_def)
  with l' len m each show ?thesis by auto
qed

theorem supply_column_multiset_witness:
  "\<exists>spl g'. build_supply sample_seed sample_randbelow 0 5 two_rows = Inr (spl, g')
      \<and> length spl = GRID_COLS \<and> mset (spl ! 3) = mset ''LA''"
proof -
  from supply_column_multiset[OF sample_randbelow_draws two_rows_layout, of sample_seed 0 5]
  obtain spl g' where b: "build_supply sample_seed sample_randbelow 0 5 two_rows = Inr (spl, g')"
    and len: "length spl = GRID_COLS"
    and each: "\<forall>c < GRID_COLS.
                 mset (spl ! c) = mset (filter is_supply_letter (map (\<lambda>row. row ! c) two_rows))"
    by blast
  have "(3::nat) < GRID_COLS" by (simp add: GRID_COLS_def)
  with each have "mset (spl ! 3) = mset (filter is_supply_letter (map (\<lambda>row. row ! 3) two_rows))"
    by blast
  also have "filter is_supply_letter (map (\<lambda>row. row ! 3) two_rows) = ''LA''"
    by (simp add: two_rows_def is_supply_letter_def PUNCTUATION_MARKS_def)
  finally show ?thesis using b len by blast
qed

text \<open>
  C7. For a fixed seed and layout, two runs of the supply construction return the same
  columns, whatever state the generator was in before each run: the generator is
  seeded once with the seed, and column \<open>c\<close> is shuffled with the stream as the shuffles
  of the columns before it left it.
\<close>

theorem supply_deterministic:
  assumes draws: "\<forall>g n. 0 < n \<longrightarrow> fst (rb g n) < n"
    and layout: "\<forall>row \<in> set rws. length row = GRID_COLS"
  shows "\<exists>cols spl g'. bucket_supply rws = Inr cols
           \<and> build_supply sd rb g1 seed rws = Inr (spl, g')
           \<and> build_supply sd rb g2 seed rws = Inr (spl, g')
           \<and> length spl = GRID_COLS
           \<and> (\<forall>c < GRID_COLS.
                 shuffle rb (cols ! c) (stream_state rb cols (sd seed) c)
                   = Inr (spl ! c, stream_state rb cols (sd seed) (Suc c)))"
proof -
  from bucket_supply_columns[OF layout] obtain cols where
    b: "bucket_supply rws = Inr cols" and len: "length cols = GRID_COLS"
    by blast
  from shuffle_columns_ok[OF draws, of cols "sd seed"] obtain spl g' where
    sh: "shuffle_columns rb cols (sd seed) = Inr (spl, g')" and l': "length spl = length cols"
    and m: "\<forall>c < length cols. shuffle rb (cols ! c) (stream_state rb cols (sd seed) c)
                     = Inr (spl ! c, stream_state rb cols (sd seed) (Suc c))"
    by blast
  from b sh have "build_supply sd rb g1 seed rws = Inr (spl, g')"
    and "build_supply sd rb g2 seed rws = Inr (spl, g')"
    by (simp_all add: build_supply_def)
  with b l' len m show ?thesis by auto
qed

theorem supply_deterministic_witness:
  "\<exists>spl g'. build_supply sample_seed sample_randbelow 0 5 two_rows = Inr (spl, g')
      \<and> build_supply sample_seed sample_randbelow 4711 5 two_rows = Inr (spl, g')"
  using supply_deterministic[OF sample_randbelow_draws two_rows_layout, of sample_seed 0 5 4711]
  by blast

section \<open>Verified properties: placement\<close>

lemma find_supply_None:
  "(\<forall>i < length xs. xs ! i = target \<longrightarrow> (col, k + i) \<in> set used)
   \<Longrightarrow> find_supply used col target k xs = None"
proof (induction xs arbitrary: k)
  case Nil
  then show ?case by simp
next
  case (Cons x xs)
  have here: "x = target \<longrightarrow> already_used used col k"
    using Cons.prems[rule_format, of 0] by (auto simp: already_used_def list_ex_iff)
  have "\<forall>i < length xs. xs ! i = target \<longrightarrow> (col, Suc k + i) \<in> set used"
    using Cons.prems[rule_format, of "Suc i" for i] by auto
  then have "find_supply used col target (Suc k) xs = None"
    by (rule Cons.IH)
  with here show ?case by auto
qed

lemma find_supply_Some:
  "find_supply used col target k xs = Some i
   \<Longrightarrow> k \<le> i \<and> i < k + length xs \<and> xs ! (i - k) = target \<and> (col, i) \<notin> set used"
proof (induction xs arbitrary: k)
  case Nil
  then show ?case by simp
next
  case (Cons x xs)
  show ?case
  proof (cases "\<not> already_used used col k \<and> x = target")
    case True
    with Cons.prems show ?thesis by (auto simp: already_used_def list_ex_iff)
  next
    case False
    with Cons.prems have "find_supply used col target (Suc k) xs = Some i" by auto
    from Cons.IH[OF this] show ?thesis by (auto simp: Suc_diff_le)
  qed
qed

lemma comma_state_reachable:
  "(case GameState_init sample_seed sample_randbelow 0 comma_quote of
      Inl e \<Rightarrow> Inl e
    | Inr (s, g) \<Rightarrow> run_steps 2 s) = Inr comma_state"
  by code_simp

text \<open>
  C4. When \<open>place_next_letter\<close> is called with a letter still to place and the target
  column of the supply has no unused occurrence of the target character, the call does
  not raise: it returns True, leaves \<open>used_supply_indices\<close> as it was, appends the target
  character to \<open>placed_supply_letters\<close> and increments \<open>placed_count\<close> by one.
\<close>

theorem place_next_letter_mismatch:
  assumes more: "placed_count s < length (letter_positions s)"
    and ans: "placed_count s < length (remove_spaces (answer (gs_quote s)))"
    and col: "col = snd (letter_positions s ! placed_count s)"
    and target: "target = remove_spaces (answer (gs_quote s)) ! placed_count s"
    and none: "\<forall>i. col < length (supply_cols s) \<and> i < length (supply_cols s ! col) \<and>
           supply_cols s ! col ! i = target \<longrightarrow> (col, i) \<in> set (used_supply_indices s)"
  shows "place_next_letter s =
           Inr (True, s\<lparr>used_supply_indices := used_supply_indices s,
                        placed_supply_letters := placed_supply_letters s @ [target],
                        placed_count := placed_count s + 1\<rparr>)"
proof -
  have "supply_match s col target = None"
  proof (cases "col < length (supply_cols s)")
    case True
    with none have "\<forall>i < length (supply_cols s ! col).
        supply_cols s ! col ! i = target \<longrightarrow> (col, 0 + i) \<in> set (used_supply_indices s)"
      by simp
    from find_supply_None[OF this] True show ?thesis by (simp add: supply_match_def)
  next
    case False
    then show ?thesis by (simp add: supply_match_def)
  qed
  with more ans col target show ?thesis
    by (auto simp: place_next_letter_def Let_def split: prod.splits)
qed

theorem place_next_letter_mismatch_witness:
  "placed_count comma_state < length (letter_positions comma_state)
   \<and> place_next_letter comma_state =
       Inr (True, comma_state\<lparr>used_supply_indices := used_supply_indices comma_state,
                              placed_supply_letters := placed_supply_letters comma_state @ '','',
                              placed_count := placed_count comma_state + 1\<rparr>)"
proof -
  have ans: "answer comma_quote = ''HI, YOU''"
    by code_simp
  have h1: "placed_count comma_state < length (letter_positions comma_state)"
    by (simp add: comma_state_def)
  have h2: "placed_count comma_state < length (remove_spaces (answer (gs_quote comma_state)))"
    by (simp add: comma_state_def ans remove_spaces_def)
  have h3: "6 = snd (letter_positions comma_state ! placed_count comma_state)"
    by (simp add: comma_state_def)
  have h4: "CHR '','' = remove_spaces (answer (gs_quote comma_state)) ! placed_count comma_state"
    by (simp add: comma_state_def ans remove_spaces_def)
  have h5: "\<forall>i. 6 < length (supply_cols comma_state) \<and> i < length (supply_cols comma_state ! 6) \<and>
           supply_cols comma_state ! 6 ! i = CHR '','' \<longrightarrow> (6, i) \<in> set (used_supply_indices comma_state)"
    by (auto simp: comma_state_def)
  from place_next_letter_mismatch[OF h1 h2 h3 h4 h5] h1 show ?thesis
    by (intro conjI)
qed

lemma place_next_letter_total:
  assumes "steps_ok s"
  shows "\<exists>ok s'. place_next_letter s = Inr (ok, s')"
  using assms by (auto simp: steps_ok_def place_next_letter_def Let_def split: prod.splits)

lemma place_next_letter_keeps:
  assumes "place_next_letter s = Inr (ok, s')"
  shows "gs_quote s' = gs_quote s \<and> letter_positions s' = letter_positions s
         \<and> supply_cols s' = supply_cols s \<and> rows s' = rows s"
  using assms by (auto simp: place_next_letter_def Let_def split: prod.splits if_splits)

lemma place_next_letter_steps_ok:
  assumes "place_next_letter s = Inr (ok, s')" "steps_ok s"
  shows "steps_ok s'"
  using place_next_letter_keeps[OF assms(1)] assms(2) by (simp add: steps_ok_def)

lemma place_next_letter_distinct:
  assumes "place_next_letter s = Inr (ok, s')" "distinct (used_supply_indices s)"
  shows "distinct (used_supply_indices s')"
  using assms
  by (auto simp: place_next_letter_def Let_def supply_match_def
      split: prod.splits if_splits option.splits dest: find_supply_Some)

lemma place_next_letter_found_size:
  assumes "place_next_letter s = Inr (ok, s')" "if ok then step_found s else True"
  shows "length (used_supply_indices s') + placed_count s
         = placed_count s' + length (used_supply_indices s)"
  using assms
  by (auto simp: place_next_letter_def Let_def step_found_def
      split: prod.splits if_splits option.splits)

lemma run_steps_invariant:
  assumes "steps_ok s" "distinct (used_supply_indices s)"
  shows "\<exists>s'. run_steps n s = Inr s' \<and> distinct (used_supply_indices s')
         \<and> (all_found n s \<longrightarrow>
              length (used_supply_indices s') + placed_count s
              = placed_count s' + length (used_supply_indices s))"
  using assms
proof (induction n arbitrary: s)
  case 0
  then show ?case by simp
next
  case (Suc n)
  from place_next_letter_total[OF Suc.prems(1)] obtain ok s1
    where step: "place_next_letter s = Inr (ok, s1)" by blast
  have ok1: "steps_ok s1" using place_next_letter_steps_ok[OF step Suc.prems(1)] .
  have d1: "distinct (used_supply_indices s1)"
    using place_next_letter_distinct[OF step Suc.prems(2)] .
  from Suc.IH[OF ok1 d1] obtain s' where
    run: "run_steps n s1 = Inr s'" and d': "distinct (used_supply_indices s')"
    and sz: "all_found n s1 \<longrightarrow>
              length (used_supply_indices s') + placed_count s1
              = placed_count s' + length (used_supply_indices s1)"
    by blast
  have "all_found (Suc n) s \<longrightarrow>
          length (used_supply_indices s') + placed_count s
          = placed_count s' + length (used_supply_indices s)"
  proof
    assume af: "all_found (Suc n) s"
    with step have f: "if ok then step_found s else True" and af1: "all_found n s1"
      by auto
    from place_next_letter_found_size[OF step f] sz af1 show
      "length (used_supply_indices s') + placed_count s
          = placed_count s' + length (used_supply_indices s)" by linarith
  qed
  with step run d' show ?case by simp
qed

text \<open>
  C6. From a freshly constructed state, any number of calls of \<open>place_next_letter\<close>
  returns without error and leaves \<open>used_supply_indices\<close> without a duplicate
  \<open>(column, index)\<close> pair; when every placing call of the run found an unused matching
  supply letter, the number of used supply entries equals \<open>placed_count\<close>.
\<close>

theorem used_supply_unique:
  assumes fresh: "used_supply_indices s = []" "placed_count s = 0"
    and ok: "length (letter_positions s) \<le> length (remove_spaces (answer (gs_quote s)))"
  shows "\<exists>s'. run_steps n s = Inr s' \<and> distinct (used_supply_indices s')
         \<and> (all_found n s \<longrightarrow> length (used_supply_indices s') = placed_count s')"
proof -
  have "steps_ok s" using ok by (simp add: steps_ok_def)
  moreover have "distinct (used_supply_indices s)" using fresh by simp
  ultimately show ?thesis
    using run_steps_invariant[of s n] fresh by auto
qed

lemma plain_state_constructed:
  "GameState_init sample_seed sample_randbelow 0 plain_quote = Inr (plain_state, 7)"
  by code_simp

theorem used_supply_unique_witness:
  "\<exists>s'. run_steps 7 plain_state = Inr s' \<and> distinct (used_supply_indices s')
         \<and> length (used_supply_indices s') = placed_count s'"
proof -
  have ans: "answer plain_quote = ''HI YOU''"
    by code_simp
  have h1: "used_supply_indices plain_state = []" by (simp add: plain_state_def)
  have h2: "placed_count plain_state = 0" by (simp add: plain_state_def)
  have h3: "length (letter_positions plain_state)
              \<le> length (remove_spaces (answer (gs_quote plain_state)))"
    by (simp add: plain_state_def ans remove_spaces_def)
  have h4: "all_found 7 plain_state" by code_simp
  from used_supply_unique[OF h1 h2 h3, of 7] h4 show ?thesis by blast
qed

section \<open>Verified properties: Python floats\<close>

lemma round_half_even_ge_floor: "\<lfloor>m\<rfloor> \<le> round_half_even m"
  by (simp add: round_half_even_def Let_def)

lemma two_powi_pos: "0 < (2::rat) powi k"
  by (simp add: power_int_def)

lemma two_powi_split: "(2::rat) powi a * 2 powi (b - a) = 2 powi b"
  by (simp add: power_int_add[symmetric])

lemma ilog2_bounds:
  assumes "0 < x"
  shows "2 powi (ilog2 x) \<le> x \<and> x < 2 powi (ilog2 x + 1)"
proof -
  obtain p q where pq: "quotient_of x = (p, q)" by (cases "quotient_of x")
  then have x: "x = of_int p / of_int q" and q: "0 < q"
    by (simp_all add: quotient_of_div quotient_of_denom_pos)
  from assms x q have p: "0 < p" by (simp add: zero_less_divide_iff)
  let ?bp = "bitlen p" and ?bq = "bitlen q"
  from bitlen_bounds[OF p] have p1: "2 ^ nat (?bp - 1) \<le> p" and p2: "p < 2 ^ nat ?bp" by simp_all
  from bitlen_bounds[OF q] have q1: "2 ^ nat (?bq - 1) \<le> q" and q2: "q < 2 ^ nat ?bq" by simp_all
  have bp: "1 \<le> ?bp"
  proof (rule ccontr)
    assume "\<not> 1 \<le> ?bp"
    then have "nat ?bp = 0" by simp
    with p2 p show False by simp
  qed
  have bq: "1 \<le> ?bq"
  proof (rule ccontr)
    assume "\<not> 1 \<le> ?bq"
    then have "nat ?bq = 0" by simp
    with q2 q show False by simp
  qed
  have P1: "(2::rat) powi (?bp - 1) \<le> of_int p"
  proof -
    have "(of_int (2 ^ nat (?bp - 1)) :: rat) \<le> of_int p" using p1 by (simp only: of_int_le_iff)
    then show ?thesis using bp by (simp add: power_int_def)
  qed
  have P2: "of_int p < (2::rat) powi ?bp"
  proof -
    have "(of_int p :: rat) < of_int (2 ^ nat ?bp)" using p2 by (simp only: of_int_less_iff)
    then show ?thesis using bp by (simp add: power_int_def)
  qed
  have Q1: "(2::rat) powi (?bq - 1) \<le> of_int q"
  proof -
    have "(of_int (2 ^ nat (?bq - 1)) :: rat) \<le> of_int q" using q1 by (simp only: of_int_le_iff)
    then show ?thesis using bq by (simp add: power_int_def)
  qed
  have Q2: "of_int q < (2::rat) powi ?bq"
  proof -
    have "(of_int q :: rat) < of_int (2 ^ nat ?bq)" using q2 by (simp only: of_int_less_iff)
    then show ?thesis using bq by (simp add: power_int_def)
  qed
  let ?d = "?bp - ?bq"
  have qpos: "(0::rat) < of_int q" using q by simp
  have lower: "2 powi (?d - 1) \<le> x"
  proof -
    have "(2::rat) powi (?d - 1) * of_int q \<le> 2 powi (?d - 1) * 2 powi ?bq"
      using Q2 two_powi_pos[of "?d - 1"] by (simp add: less_imp_le)
    also have "\<dots> = 2 powi (?bp - 1)"
      by (simp add: power_int_add[symmetric])
    also have "\<dots> \<le> of_int p" by (rule P1)
    finally show ?thesis unfolding x using qpos by (simp add: pos_le_divide_eq)
  qed
  have upper: "x < 2 powi (?d + 1)"
  proof -
    have "of_int p < (2::rat) powi ?bp" by (rule P2)
    also have "\<dots> = 2 powi (?d + 1) * 2 powi (?bq - 1)"
      by (simp add: power_int_add[symmetric])
    also have "\<dots> \<le> 2 powi (?d + 1) * of_int q"
      using Q1 two_powi_pos[of "?d + 1"] by simp
    finally show ?thesis unfolding x using qpos by (simp add: pos_divide_less_eq)
  qed
  show ?thesis
  proof (cases "2 powi ?d \<le> x")
    case True
    with pq upper show ?thesis by (simp add: ilog2_def Let_def)
  next
    case False
    with pq lower show ?thesis by (simp add: ilog2_def Let_def)
  qed
qed

lemma round_double_nonneg:
  assumes "0 \<le> x"
  shows "0 \<le> round_double x"
proof (cases "x = 0")
  case True
  then show ?thesis by (simp add: round_double_def)
next
  case False
  with assms have x: "0 < x" by simp
  let ?q = "ilog2 \<bar>x\<bar> - 52"
  have "0 \<le> \<bar>x\<bar> / 2 powi ?q" using two_powi_pos[of ?q] by simp
  then have "0 \<le> \<lfloor>\<bar>x\<bar> / 2 powi ?q\<rfloor>" by simp
  with round_half_even_ge_floor[of "\<bar>x\<bar> / 2 powi ?q"]
  have "0 \<le> round_half_even (\<bar>x\<bar> / 2 powi ?q)" by linarith
  then have "(0::rat) \<le> of_int (round_half_even (\<bar>x\<bar> / 2 powi ?q))" by simp
  with x two_powi_pos[of ?q] show ?thesis
    by (simp add: round_double_def Let_def)
qed

lemma round_double_ge_power:
  assumes "2 powi k \<le> x"
  shows "2 powi k \<le> round_double x"
proof -
  have x: "0 < x" using assms two_powi_pos[of k] by linarith
  let ?e = "ilog2 x"
  let ?q = "?e - 52"
  from ilog2_bounds[OF x] have lo: "2 powi ?e \<le> x" and hi: "x < 2 powi (?e + 1)" by simp_all
  have ke: "k \<le> ?e"
  proof (rule ccontr)
    assume "\<not> k \<le> ?e"
    then have "?e + 1 \<le> k" by simp
    then have "(2::rat) powi (?e + 1) \<le> 2 powi k" by (intro power_int_increasing) simp_all
    with assms hi show False by linarith
  qed
  define c :: rat where "c = 2 powi 52"
  have c_int: "c = of_int (2 ^ 52)" by (simp add: c_def power_int_def)
  have c_split: "c * 2 powi ?q = 2 powi ?e" unfolding c_def by (rule two_powi_split)
  let ?m = "x / 2 powi ?q"
  let ?n = "round_half_even ?m"
  from lo c_split have "c * 2 powi ?q \<le> x" by simp
  then have "c \<le> ?m" using two_powi_pos[of ?q] by (simp add: pos_le_divide_eq)
  then have "(2 ^ 52 :: int) \<le> \<lfloor>?m\<rfloor>" unfolding c_int by (simp only: le_floor_iff)
  with round_half_even_ge_floor[of ?m] have "(2 ^ 52 :: int) \<le> ?n" by linarith
  then have "c \<le> of_int ?n" unfolding c_int by (simp only: of_int_le_iff)
  then have "c * 2 powi ?q \<le> of_int ?n * 2 powi ?q"
    using two_powi_pos[of ?q] by (simp only: mult_le_cancel_right_pos)
  then have "(2::rat) powi ?e \<le> of_int ?n * 2 powi ?q"
    unfolding c_split .
  moreover have "round_double x = of_int ?n * 2 powi ?q"
    using x by (simp add: round_double_def Let_def)
  moreover have "(2::rat) powi k \<le> 2 powi ?e" using ke by (intro power_int_increasing) simp_all
  ultimately show ?thesis by linarith
qed

lemma float_of_nat_nonneg: "0 \<le> float_of_nat n"
  unfolding float_of_nat_def by (rule round_double_nonneg) simp

lemma fmul_nonneg: "0 \<le> x \<Longrightarrow> 0 \<le> y \<Longrightarrow> 0 \<le> fmul x y"
  unfolding fmul_def by (rule round_double_nonneg) simp

section \<open>Verified properties: timeline\<close>

text \<open>
  C8. The claim gives the durations by exact arithmetic on the constants. The code
  computes them in doubles, each operation rounded. For 15 letters the solve duration
  is 9007199254740991 / 4503599627370496 (printed as 1.9999999999999998): it is neither
  the exact value of \<open>pause_before_start + 15 * time_per_letter\<close> on the code's own
  values nor the 2 that 0.2 + 15 * 0.12 makes. For 50 letters the time per letter and
  the solve duration are the doubles nearest to 0.12 and 6.2, not these numbers.
\<close>

theorem timeline_durations_counterexample:
  "solve_duration 15 = 9007199254740991 / 4503599627370496
   \<and> solve_duration 15 \<noteq> pause_before_start + of_nat 15 * time_per_letter 15
   \<and> solve_duration 15 \<noteq> 2 / 10 + 15 * (12 / 100)
   \<and> time_per_letter 50 \<noteq> 12 / 100
   \<and> solve_duration 50 \<noteq> 62 / 10"
  by code_simp

text \<open>
  C8, amended. With every operation rounded to the nearest double: the time per letter
  is 0 for an empty puzzle and otherwise the smaller of the quotient of the available
  time \<open>max(0, max_solve_time - pause_before_start)\<close> by the number of letters and
  \<open>max_time_per_letter\<close>; the solve duration is the pause plus the product of the number
  of letters and the time per letter; the hold after the reveal is the fanfare duration
  less the fade, not below 0, or 1.0 when the fanfare duration is not known. The
  constants are the doubles of the literals 7.0, 0.2 and 0.12, the available time is the
  double of 6.8, and for 50 letters the time per letter is the double of 0.12 and the
  solve duration the double of 6.2.
\<close>

theorem timeline_durations:
  "time_per_letter N =
     (if N = 0 then 0
      else min (fdiv (max 0 (fsub max_solve_time pause_before_start)) (float_of_nat N))
             max_time_per_letter)
   \<and> solve_duration N = fadd pause_before_start (fmul (float_of_nat N) (time_per_letter N))
   \<and> reveal_hold_duration (Some d) = max 0 (fsub d reveal_fade_duration)
   \<and> reveal_hold_duration None = 1
   \<and> max_solve_time = 7 \<and> pause_before_start = round_double (2 / 10)
   \<and> max_time_per_letter = round_double (12 / 100)
   \<and> fsub max_solve_time pause_before_start = round_double (68 / 10)
   \<and> time_per_letter 50 = round_double (12 / 100)
   \<and> solve_duration 50 = round_double (62 / 10)"
proof -
  have av: "fsub max_solve_time pause_before_start = round_double (68 / 10)"
    by code_simp
  have pos: "0 < round_double (68 / 10)"
    by code_simp
  have tpl: "time_per_letter N =
     (if N = 0 then 0
      else min (fdiv (max 0 (fsub max_solve_time pause_before_start)) (float_of_nat N))
             max_time_per_letter)"
    using pos by (simp add: time_per_letter_def av Let_def max_def)
  have t50: "time_per_letter 50 = round_double (12 / 100)"
    by code_simp
  have s50: "solve_duration 50 = round_double (62 / 10)"
    by code_simp
  show ?thesis
    using tpl av t50 s50
    by (simp add: solve_duration_def reveal_hold_duration_def max_solve_time_def
        pause_before_start_def max_time_per_letter_def)
qed

section \<open>Verified properties: frames\<close>

lemma py_int_floor: "0 \<le> x \<Longrightarrow> py_int x = \<lfloor>x\<rfloor>"
  by (simp add: py_int_def)

lemma max_time_per_letter_nonneg: "0 \<le> max_time_per_letter"
  unfolding max_time_per_letter_def by (rule round_double_nonneg) simp

lemma time_per_letter_nonneg: "0 \<le> time_per_letter N"
proof -
  have "0 \<le> fdiv a (float_of_nat N)" if "0 < a" for a
    unfolding fdiv_def using that float_of_nat_nonneg[of N]
    by (intro round_double_nonneg) simp
  then show ?thesis
    using max_time_per_letter_nonneg by (simp add: time_per_letter_def Let_def min_def)
qed

lemma two_powi_eighth: "(2::rat) powi (- 3) = 1 / 8"
  by (simp add: power_int_def eval_nat_numeral)

lemma pause_before_start_lower: "2 powi (- 3) \<le> pause_before_start"
  unfolding pause_before_start_def
  by (rule round_double_ge_power) (simp add: two_powi_eighth)

lemma solve_duration_lower: "2 powi (- 3) \<le> solve_duration N"
proof -
  have "0 \<le> fmul (float_of_nat N) (time_per_letter N)"
    by (rule fmul_nonneg[OF float_of_nat_nonneg time_per_letter_nonneg])
  with pause_before_start_lower
  have "2 powi (- 3) \<le> pause_before_start + fmul (float_of_nat N) (time_per_letter N)"
    by linarith
  then show ?thesis
    unfolding solve_duration_def fadd_def by (rule round_double_ge_power)
qed

lemma float_of_FPS_lower: "2 powi 4 \<le> float_of_nat FPS"
  unfolding float_of_nat_def
  by (rule round_double_ge_power) (simp add: FPS_def power_int_def)

lemma solve_product_lower: "2 powi 1 \<le> fmul (solve_duration N) (float_of_nat FPS)"
proof -
  have a: "(1 / 8 :: rat) \<le> solve_duration N"
    using solve_duration_lower[of N] by (simp add: two_powi_eighth)
  have b: "(16 :: rat) \<le> float_of_nat FPS"
    using float_of_FPS_lower by (simp add: power_int_def)
  have "(1 / 8) * 16 \<le> solve_duration N * float_of_nat FPS"
    using a b by (intro mult_mono) simp_all
  then have "2 powi 1 \<le> solve_duration N * float_of_nat FPS" by simp
  then show ?thesis unfolding fmul_def by (rule round_double_ge_power)
qed

lemma reveal_hold_duration_nonneg: "0 \<le> reveal_hold_duration w"
  by (simp add: reveal_hold_duration_def split: option.splits)

lemma solve_frames_floor:
  "solve_frames N = \<lfloor>fmul (solve_duration N) (float_of_nat FPS)\<rfloor>"
proof -
  have "0 \<le> fmul (solve_duration N) (float_of_nat FPS)"
    using solve_product_lower[of N] by simp
  then show ?thesis by (simp add: solve_frames_def py_int_floor)
qed

lemma solve_frames_pos: "2 \<le> solve_frames N"
proof -
  have "(2::rat) \<le> fmul (solve_duration N) (float_of_nat FPS)"
    using solve_product_lower[of N] by simp
  then have "(2::int) \<le> \<lfloor>fmul (solve_duration N) (float_of_nat FPS)\<rfloor>"
    by (simp add: le_floor_iff)
  then show ?thesis by (simp add: solve_frames_floor)
qed

lemma reveal_fade_frames_value: "reveal_fade_frames = 30"
  by code_simp

lemma reveal_fade_frames_floor:
  "reveal_fade_frames = \<lfloor>fmul reveal_fade_duration (float_of_nat FPS)\<rfloor>"
proof -
  have "0 \<le> fmul reveal_fade_duration (float_of_nat FPS)"
    by (rule fmul_nonneg[OF _ float_of_nat_nonneg]) (simp add: reveal_fade_duration_def)
  then show ?thesis by (simp add: reveal_fade_frames_def py_int_floor)
qed

lemma reveal_hold_frames_floor:
  "reveal_hold_frames w = \<lfloor>fmul (reveal_hold_duration w) (float_of_nat FPS)\<rfloor>"
proof -
  have "0 \<le> fmul (reveal_hold_duration w) (float_of_nat FPS)"
    by (rule fmul_nonneg[OF reveal_hold_duration_nonneg float_of_nat_nonneg])
  then show ?thesis by (simp add: reveal_hold_frames_def py_int_floor)
qed

lemma reveal_hold_frames_nonneg: "0 \<le> reveal_hold_frames w"
proof -
  have "0 \<le> fmul (reveal_hold_duration w) (float_of_nat FPS)"
    by (rule fmul_nonneg[OF reveal_hold_duration_nonneg float_of_nat_nonneg])
  then show ?thesis by (simp add: reveal_hold_frames_floor)
qed

lemma place_next_letter_cases:
  assumes "place_next_letter s = Inr (ok, s')"
  shows "if ok then placed_count s < length (letter_positions s)
                    \<and> placed_count s' = Suc (placed_count s)
         else s' = s \<and> length (letter_positions s) \<le> placed_count s"
  using assms by (auto simp: place_next_letter_def Let_def split: prod.splits if_splits)

lemma place_until_ok:
  assumes "steps_ok s" "placed_count s \<le> length (letter_positions s)"
  shows "\<exists>s'. place_until target s = Inr s' \<and> steps_ok s'
           \<and> letter_positions s' = letter_positions s
           \<and> placed_count s' \<le> length (letter_positions s')
           \<and> (target = int (length (letter_positions s))
                \<longrightarrow> placed_count s' = length (letter_positions s))"
  using assms
proof (induction target s rule: place_until.induct)
  case (1 target s)
  show ?case
  proof (cases "int (placed_count s) < target")
    case False
    then have "place_until target s = Inr s" by (subst place_until.simps) simp
    with False "1.prems" show ?thesis by auto
  next
    case True
    from place_next_letter_total[OF "1.prems"(1)] obtain ok s1
      where step: "place_next_letter s = Inr (ok, s1)" by blast
    note facts = place_next_letter_cases[OF step]
    show ?thesis
    proof (cases ok)
      case False
      with facts have same: "s1 = s" and full: "length (letter_positions s) \<le> placed_count s"
        by simp_all
      have "place_until target s = Inr s"
        using True step False same by (subst place_until.simps) simp
      with full "1.prems" show ?thesis by auto
    next
      case ok: True
      with facts have cnt: "placed_count s1 = Suc (placed_count s)"
        and room: "placed_count s < length (letter_positions s)" by simp_all
      note keeps = place_next_letter_keeps[OF step]
      have ok1: "steps_ok s1" using place_next_letter_steps_ok[OF step "1.prems"(1)] .
      have le1: "placed_count s1 \<le> length (letter_positions s1)"
        using cnt room keeps by simp
      from "1.IH"[OF True step refl ok ok1 le1] keeps
      obtain s' where "place_until target s1 = Inr s'" "steps_ok s'"
        "letter_positions s' = letter_positions s"
        "placed_count s' \<le> length (letter_positions s')"
        "target = int (length (letter_positions s))
                \<longrightarrow> placed_count s' = length (letter_positions s)"
        by auto
      moreover have "place_until target s = place_until target s1"
        using True step ok by (subst place_until.simps) simp
      ultimately show ?thesis by auto
    qed
  qed
qed


lemma target_placed_last:
  "int f = n_solve - 1 \<Longrightarrow> target_placed n_solve N f = int N"
  by (simp add: target_placed_def Let_def)

lemma solve_phase_ok:
  assumes "steps_ok s" "placed_count s \<le> length (letter_positions s)"
  shows "\<exists>frs s'. solve_phase n_solve (length (letter_positions s)) fs s = Inr (frs, s')
           \<and> length frs = length fs
           \<and> map frame_index frs = map int fs
           \<and> (\<forall>i < length fs. int (fs ! i) = n_solve - 1
                 \<longrightarrow> placed_count (frame_state (frs ! i)) = length (letter_positions s))"
  using assms
proof (induction fs arbitrary: s)
  case Nil
  then show ?case by simp
next
  case (Cons f fs)
  let ?N = "length (letter_positions s)"
  from place_until_ok[OF Cons.prems, of "target_placed n_solve ?N f"] obtain s1 where
    adv: "place_until (target_placed n_solve ?N f) s = Inr s1" and ok1: "steps_ok s1"
    and lp: "letter_positions s1 = letter_positions s"
    and le1: "placed_count s1 \<le> length (letter_positions s1)"
    and full: "target_placed n_solve ?N f = int ?N \<longrightarrow> placed_count s1 = ?N"
    by blast
  from Cons.IH[OF ok1 le1] lp obtain frs s' where
    rest: "solve_phase n_solve ?N fs s1 = Inr (frs, s')" and len: "length frs = length fs"
    and idx: "map frame_index frs = map int fs"
    and last: "\<forall>i < length fs. int (fs ! i) = n_solve - 1
                 \<longrightarrow> placed_count (frame_state (frs ! i)) = ?N"
    by auto
  let ?fr = "\<lparr>frame_index = int f, frame_state = s1, frame_progress = 0\<rparr>"
  have run: "solve_phase n_solve ?N (f # fs) s = Inr (?fr # frs, s')"
    using adv rest by simp
  have "\<forall>i < length (f # fs). int ((f # fs) ! i) = n_solve - 1
                 \<longrightarrow> placed_count (frame_state ((?fr # frs) ! i)) = ?N"
  proof (intro allI impI)
    fix i assume i: "i < length (f # fs)" and e: "int ((f # fs) ! i) = n_solve - 1"
    show "placed_count (frame_state ((?fr # frs) ! i)) = ?N"
    proof (cases i)
      case 0
      with e have "int f = n_solve - 1" by simp
      from target_placed_last[OF this] full 0 show ?thesis by simp
    next
      case (Suc i')
      with i e last show ?thesis by simp
    qed
  qed
  with run len idx show ?case by simp
qed

lemma position_step_invariant:
  assumes "foldl (position_step limit) (ps, k) cells = (ps', k')" "k = length ps" "k \<le> limit"
  shows "k' = length ps' \<and> k' \<le> limit"
  using assms
proof (induction cells arbitrary: ps k)
  case Nil
  then show ?case by auto
next
  case (Cons cell cells)
  obtain ps1 k1 where st: "position_step limit (ps, k) cell = (ps1, k1)"
    by (cases "position_step limit (ps, k) cell")
  then have "k1 = length ps1 \<and> k1 \<le> limit"
    using Cons.prems(2,3) by (auto simp: position_step_def split: prod.splits if_splits)
  with Cons.IH[of ps1 k1] Cons.prems(1) st show ?case by simp
qed

lemma build_letter_positions_length:
  "length (build_letter_positions ans rws) \<le> length (remove_spaces ans)"
proof -
  obtain ps k where
    f: "foldl (position_step (length (remove_spaces ans))) ([], 0) (scan_cells rws) = (ps, k)"
    by (cases "foldl (position_step (length (remove_spaces ans))) ([], 0) (scan_cells rws)")
  from position_step_invariant[OF f] show ?thesis
    by (simp add: build_letter_positions_def f)
qed

lemma GameState_init_fresh:
  assumes "GameState_init sd rb g q = Inr (s, g')"
  shows "steps_ok s \<and> placed_count s = 0 \<and> used_supply_indices s = []
         \<and> placed_supply_letters s = [] \<and> gs_quote s = q"
  using assms build_letter_positions_length
  by (auto simp: GameState_init_def steps_ok_def split: sum.splits prod.splits)


text \<open>
  C9. The claim gives each frame count as the floor of the duration times the frame
  rate. The code floors the rounded double product: for 10 letters the product rounds
  up to 42.0 and 42 frames are written, where the exact product of the code's duration
  and 30 has floor 41; for 15 letters the code writes 59 frames, where the durations of
  the claim taken exactly (0.2 + 15 * 0.12 = 2 seconds) give 60.
\<close>

theorem frame_coverage_counterexample:
  "solve_frames 10 = 42
   \<and> \<lfloor>solve_duration 10 * of_nat FPS\<rfloor> = 41
   \<and> solve_frames 15 = 59
   \<and> \<lfloor>(2 / 10 + 15 * (12 / 100)) * (30::rat)\<rfloor> = 60"
  by code_simp

text \<open>
  C9, amended. For a game that was constructed, \<open>generate_video\<close> returns its frames.
  Each phase's frame count is the floor of the double product of its own duration and
  the frame rate; the number of frames written is the sum of the three counts, numbered
  consecutively from 0; the placement phase has at least one frame, and on its last
  frame (index \<open>solve_frames - 1\<close>) the state handed to the renderer has every letter
  placed.
\<close>

theorem frame_coverage:
  assumes built: "GameState_init sd rb g q = Inr (s, g')"
  shows "\<exists>frames. generate_video sd rb g w q = Inr frames
           \<and> solve_frames (length (letter_positions s))
               = \<lfloor>fmul (solve_duration (length (letter_positions s))) (float_of_nat FPS)\<rfloor>
           \<and> reveal_fade_frames = \<lfloor>fmul reveal_fade_duration (float_of_nat FPS)\<rfloor>
           \<and> reveal_hold_frames w = \<lfloor>fmul (reveal_hold_duration w) (float_of_nat FPS)\<rfloor>
           \<and> int (length frames)
               = solve_frames (length (letter_positions s)) + reveal_fade_frames
                 + reveal_hold_frames w
           \<and> map frame_index frames = map int [0..<length frames]
           \<and> 0 < solve_frames (length (letter_positions s))
           \<and> placed_count (frame_state
                 (frames ! nat (solve_frames (length (letter_positions s)) - 1)))
               = length (letter_positions s)"
proof -
  let ?N = "length (letter_positions s)"
  let ?a = "nat (solve_frames ?N)"
  let ?b = "nat reveal_fade_frames"
  let ?c = "nat (reveal_hold_frames w)"
  have pos: "2 \<le> solve_frames ?N" by (rule solve_frames_pos)
  have fade: "0 \<le> reveal_fade_frames" by (simp add: reveal_fade_frames_value)
  have hold: "0 \<le> reveal_hold_frames w" by (rule reveal_hold_frames_nonneg)
  from GameState_init_fresh[OF built] have ok: "steps_ok s" and zero: "placed_count s = 0"
    by simp_all
  then have le: "placed_count s \<le> ?N" by simp
  from solve_phase_ok[OF ok le, of "solve_frames ?N" "[0..<?a]"] obtain frs1 s' where
    ph1: "solve_phase (solve_frames ?N) ?N [0..<?a] s = Inr (frs1, s')"
    and len1: "length frs1 = ?a"
    and idx1: "map frame_index frs1 = map int [0..<?a]"
    and last: "\<forall>i < length [0..<?a]. int ([0..<?a] ! i) = solve_frames ?N - 1
                 \<longrightarrow> placed_count (frame_state (frs1 ! i)) = ?N"
    by auto
  let ?frs2 = "map (\<lambda>i. \<lparr>frame_index = solve_frames ?N + int i, frame_state = s',
                     frame_progress = int_truediv (i + 1) (nat (max reveal_fade_frames 1))\<rparr>)
                 [0..<?b]"
  let ?frs3 = "map (\<lambda>i. \<lparr>frame_index = solve_frames ?N + reveal_fade_frames + int i,
                     frame_state = s', frame_progress = 1\<rparr>)
                 [0..<?c]"
  let ?frames = "frs1 @ ?frs2 @ ?frs3"
  have gen: "generate_video sd rb g w q = Inr ?frames"
    using built ph1 by (simp add: generate_video_def generate_frames_def Let_def)
  have total: "int (length ?frames) = solve_frames ?N + reveal_fade_frames + reveal_hold_frames w"
    using len1 pos fade hold by simp
  have len: "length ?frames = ?a + ?b + ?c" using len1 by simp
  have i2: "map frame_index ?frs2 = map int [?a..<?a + ?b]"
  proof -
    have "map frame_index ?frs2 = map (\<lambda>i. int (?a + i)) [0..<?b]"
      using pos by (simp add: comp_def)
    also have "\<dots> = map int (map (\<lambda>i. ?a + i) [0..<?b])" by (simp add: comp_def)
    also have "map (\<lambda>i. ?a + i) [0..<?b] = [?a..<?a + ?b]"
      using map_add_upt[of ?a ?b] by (simp add: add.commute)
    finally show ?thesis .
  qed
  have i3: "map frame_index ?frs3 = map int [?a + ?b..<?a + ?b + ?c]"
  proof -
    have "map frame_index ?frs3 = map (\<lambda>i. int (?a + ?b + i)) [0..<?c]"
      using pos fade by (simp add: comp_def)
    also have "\<dots> = map int (map (\<lambda>i. ?a + ?b + i) [0..<?c])" by (simp add: comp_def)
    also have "map (\<lambda>i. ?a + ?b + i) [0..<?c] = [?a + ?b..<?a + ?b + ?c]"
      using map_add_upt[of "?a + ?b" ?c] by (simp add: add.commute)
    finally show ?thesis .
  qed
  have u1: "[0..<?a + ?b + ?c] = [0..<?a + ?b] @ [?a + ?b..<?a + ?b + ?c]"
    by (rule upt_add_eq_append) simp
  have u2: "[0..<?a + ?b] = [0..<?a] @ [?a..<?a + ?b]"
    by (rule upt_add_eq_append) simp
  have "map frame_index ?frames
          = map int [0..<?a] @ map int [?a..<?a + ?b] @ map int [?a + ?b..<?a + ?b + ?c]"
    unfolding map_append idx1 i2 i3 ..
  also have "\<dots> = map int [0..<?a + ?b + ?c]"
    unfolding u1 u2 map_append by simp
  finally have idx: "map frame_index ?frames = map int [0..<length ?frames]"
    unfolding len .
  have lastidx: "nat (solve_frames ?N - 1) < ?a" using pos by simp
  have "int ([0..<?a] ! nat (solve_frames ?N - 1)) = solve_frames ?N - 1"
    using lastidx pos by simp
  with last lastidx have "placed_count (frame_state (frs1 ! nat (solve_frames ?N - 1))) = ?N"
    by simp
  moreover have "?frames ! nat (solve_frames ?N - 1) = frs1 ! nat (solve_frames ?N - 1)"
    using lastidx len1 by (simp add: nth_append)
  ultimately have fin: "placed_count (frame_state (?frames ! nat (solve_frames ?N - 1))) = ?N"
    by simp
  have p: "0 < solve_frames ?N" using pos by simp
  show ?thesis
    apply (rule exI[of _ ?frames])
    using gen solve_frames_floor[of ?N] reveal_fade_frames_floor reveal_hold_frames_floor[of w]
      total idx p fin
    by blast
qed

theorem frame_coverage_witness:
  "\<exists>frames. generate_video sample_seed sample_randbelow 0 None plain_quote = Inr frames
      \<and> int (length frames) = 24 + 30 + 30
      \<and> placed_count (frame_state (frames ! 23)) = 5"
proof -
  have N: "length (letter_positions plain_state) = 5"
    by (simp add: plain_state_def)
  have sf: "solve_frames 5 = 24"
    by code_simp
  have hf: "reveal_hold_frames None = 30"
    by code_simp
  from frame_coverage[OF plain_state_constructed, of None] obtain frames where
    "generate_video sample_seed sample_randbelow 0 None plain_quote = Inr frames"
    "int (length frames)
       = solve_frames (length (letter_positions plain_state)) + reveal_fade_frames
         + reveal_hold_frames None"
    "placed_count (frame_state
         (frames ! nat (solve_frames (length (letter_positions plain_state)) - 1)))
       = length (letter_positions plain_state)"
    by blast
  then show ?thesis
    unfolding N sf hf reveal_fade_frames_value by (intro exI[of _ frames]) simp
qed

section \<open>Verified properties: daily selection\<close>

text \<open>
  C10. For a non-negative day count and a non-empty library, \<open>get_daily_quote\<close> returns
  a new quote whose id is the selected index plus one,
  \<open>((days_since_epoch + offset) mod quote_count) + 1\<close>, with the text, author and source
  of the library record at that index. The ids stored in the library play no part: the
  result is the same whatever they are. The game built from the returned quote seeds its
  supply shuffle with that index plus one.
\<close>

theorem daily_quote_id:
  assumes day: "0 \<le> d" and lib: "quotes \<noteq> []"
  shows "\<exists>q. get_daily_quote quotes d = Inr q
           \<and> qid q = ((d + LIBRARY_OFFSET) mod int (length quotes)) + 1
           \<and> qtext q = qtext (quotes ! nat ((d + LIBRARY_OFFSET) mod int (length quotes)))
           \<and> author q = author (quotes ! nat ((d + LIBRARY_OFFSET) mod int (length quotes)))
           \<and> source q = source (quotes ! nat ((d + LIBRARY_OFFSET) mod int (length quotes)))
           \<and> get_daily_quote (map (\<lambda>r. r\<lparr>qid := f r\<rparr>) quotes) d = Inr q
           \<and> map_sum id (\<lambda>(s, g'). (supply_cols s, g')) (GameState_init sd rb g q)
               = (case build_grid (answer q) of
                    Inl e \<Rightarrow> Inl e
                  | Inr rws \<Rightarrow>
                      build_supply sd rb g (((d + LIBRARY_OFFSET) mod int (length quotes)) + 1) rws)"
proof -
  let ?idx = "(d + LIBRARY_OFFSET) mod int (length quotes)"
  let ?q = "\<lparr>qid = ?idx + 1, qtext = qtext (quotes ! nat ?idx),
             author = author (quotes ! nat ?idx), source = source (quotes ! nat ?idx)\<rparr>"
  have len: "0 < int (length quotes)" using lib by simp
  have bound: "nat ?idx < length quotes"
    using pos_mod_bound[OF len, of "d + LIBRARY_OFFSET"] pos_mod_sign[OF len, of "d + LIBRARY_OFFSET"]
    by linarith
  have sel: "get_daily_quote quotes d = Inr ?q"
    using day lib by (simp add: get_daily_quote_def Let_def)
  have ids: "get_daily_quote (map (\<lambda>r. r\<lparr>qid := f r\<rparr>) quotes) d = Inr ?q"
    using day lib bound by (simp add: get_daily_quote_def Let_def)
  have seed: "map_sum id (\<lambda>(s, g'). (supply_cols s, g')) (GameState_init sd rb g ?q)
               = (case build_grid (answer ?q) of
                    Inl e \<Rightarrow> Inl e
                  | Inr rws \<Rightarrow> build_supply sd rb g (?idx + 1) rws)"
    by (auto simp: GameState_init_def split: sum.splits)
  show ?thesis
    by (rule exI[of _ ?q]) (use sel ids seed in simp)
qed

theorem daily_quote_id_witness:
  "get_daily_quote two_quotes 3
     = Inr \<lparr>qid = 2, qtext = ''GO ON'', author = ''B'', source = Some ''Book''\<rparr>"
proof -
  have h1: "(0::int) \<le> 3" by simp
  have h2: "two_quotes \<noteq> []" by (simp add: two_quotes_def)
  from daily_quote_id[OF h1 h2, of "\<lambda>r. 0" sample_seed sample_randbelow 0]
  obtain q where "get_daily_quote two_quotes 3 = Inr q"
    and "qid q = ((3 + LIBRARY_OFFSET) mod int (length two_quotes)) + 1"
    and "qtext q = qtext (two_quotes ! nat ((3 + LIBRARY_OFFSET) mod int (length two_quotes)))"
    and "author q = author (two_quotes ! nat ((3 + LIBRARY_OFFSET) mod int (length two_quotes)))"
    and "source q = source (two_quotes ! nat ((3 + LIBRARY_OFFSET) mod int (length two_quotes)))"
    by blast
  then show ?thesis
    by (cases q) (simp add: two_quotes_def LIBRARY_OFFSET_def)
qed

end
